theory Spec2Isabelle
  imports Main
begin

section \<open>Board state\<close>

text \<open>
  The program is a console Tic-Tac-Toe: a human (\<open>X\<close>) against a computer (\<open>O\<close>) that
  picks its moves by exhaustive minimax. A board is a Python list of strings; a cell holds
  one of the three module constants. Nothing in the code fixes the length of the list, so
  the model keeps a plain list and writes out the \<open>IndexError\<close> that Python raises when a
  cell outside the list is read or written.
\<close>

type_synonym board = "string list"

definition PLAYER :: string where
  "PLAYER = ''X''"

definition COMPUTER :: string where
  "COMPUTER = ''O''"

definition EMPTY :: string where
  "EMPTY = '' ''"

datatype error = IndexError

text \<open>\<open>board[i]\<close> and \<open>board[i] = v\<close> for an index that is not negative.\<close>

definition getitem :: "board \<Rightarrow> nat \<Rightarrow> error + string" where
  "getitem board i = (if i < length board then Inr (board ! i) else Inl IndexError)"

definition setitem :: "board \<Rightarrow> nat \<Rightarrow> string \<Rightarrow> error + board" where
  "setitem board i v = (if i < length board then Inr (board[i := v]) else Inl IndexError)"

definition win_lines :: "nat list list" where
  "win_lines =
     [[0, 1, 2], [3, 4, 5], [6, 7, 8], [0, 3, 6], [1, 4, 7], [2, 5, 8], [0, 4, 8], [2, 4, 6]]"

text \<open>
  \<open>check_win\<close> is \<open>any(all(board[i] == symbol for i in line) for line in win_lines)\<close>.
  Both generators are lazy: \<open>all\<close> stops at the first cell that differs, \<open>any\<close> at the
  first complete line, and a read outside the board aborts the whole call.
\<close>

fun all_cells :: "board \<Rightarrow> string \<Rightarrow> nat list \<Rightarrow> error + bool" where
  "all_cells board symbol [] = Inr True"
| "all_cells board symbol (i # line) =
     (case getitem board i of
        Inl e \<Rightarrow> Inl e
      | Inr cell \<Rightarrow> if cell = symbol then all_cells board symbol line else Inr False)"

fun any_line :: "board \<Rightarrow> string \<Rightarrow> nat list list \<Rightarrow> error + bool" where
  "any_line board symbol [] = Inr False"
| "any_line board symbol (line # lines) =
     (case all_cells board symbol line of
        Inl e \<Rightarrow> Inl e
      | Inr found \<Rightarrow> if found then Inr True else any_line board symbol lines)"

definition check_win :: "board \<Rightarrow> string \<Rightarrow> error + bool" where
  "check_win board symbol = any_line board symbol win_lines"

definition check_draw :: "board \<Rightarrow> bool" where
  "check_draw board = list_all (\<lambda>cell. cell \<noteq> EMPTY) board"

definition get_available_moves :: "board \<Rightarrow> nat list" where
  "get_available_moves board =
     map fst (filter (\<lambda>(index, cell). cell = EMPTY) (enumerate 0 board))"

definition make_move :: "board \<Rightarrow> nat \<Rightarrow> string \<Rightarrow> error + board" where
  "make_move board index symbol = setitem board index symbol"

section \<open>Move search\<close>

text \<open>
  \<open>best_score\<close> starts as \<open>-float("inf")\<close> or \<open>float("inf")\<close> and is afterwards an
  \<open>int\<close>; the three shapes are kept apart, with Python's \<open><\<close> between them.
\<close>

datatype score = NegInf | Fin int | PosInf

fun score_less :: "score \<Rightarrow> score \<Rightarrow> bool" where
  "score_less NegInf NegInf = False"
| "score_less NegInf _ = True"
| "score_less (Fin a) (Fin b) = (a < b)"
| "score_less (Fin a) PosInf = True"
| "score_less (Fin a) NegInf = False"
| "score_less PosInf _ = False"

text \<open>
  The two \<open>if\<close> statements that close the loop body, run one after the other on the pair
  \<open>(best_score, best_move)\<close>; \<open>score > best_score\<close> is \<open>score_less best_score score\<close>.
\<close>

definition update_best ::
  "bool \<Rightarrow> score \<Rightarrow> nat \<Rightarrow> score \<times> nat option \<Rightarrow> score \<times> nat option" where
  "update_best is_maximizing score move best =
     (let best1 = (if is_maximizing \<and> score_less (fst best) score
                   then (score, Some move) else best)
      in if \<not> is_maximizing \<and> score_less score (fst best1)
         then (score, Some move) else best1)"

text \<open>
  \<open>minimax\<close> mutates the caller's list and puts it back, so the model passes the board
  through and returns it next to the Python result \<open>(best_score, best_move)\<close>.
  \<open>minimax_loop\<close> is the \<open>for\<close> loop: the list of moves is computed once, before the
  first iteration, and each iteration works on the board the previous one left behind.
\<close>

type_synonym outcome = "board \<times> score \<times> nat option"

function minimax :: "board \<Rightarrow> bool \<Rightarrow> error + outcome"
  and minimax_loop ::
    "board \<Rightarrow> bool \<Rightarrow> nat list \<Rightarrow> score \<Rightarrow> nat option \<Rightarrow> error + outcome"
where
  "minimax board is_maximizing =
     (case check_win board COMPUTER of
        Inl e \<Rightarrow> Inl e
      | Inr won_c \<Rightarrow>
          if won_c then Inr (board, Fin 1, None)
          else (case check_win board PLAYER of
                  Inl e \<Rightarrow> Inl e
                | Inr won_p \<Rightarrow>
                    if won_p then Inr (board, Fin (- 1), None)
                    else if check_draw board then Inr (board, Fin 0, None)
                    else minimax_loop board is_maximizing (get_available_moves board)
                           (if is_maximizing then NegInf else PosInf) None))"
| "minimax_loop board is_maximizing [] best_score best_move =
     Inr (board, best_score, best_move)"
| "minimax_loop board is_maximizing (move # moves) best_score best_move =
     (case setitem board move (if is_maximizing then COMPUTER else PLAYER) of
        Inl e \<Rightarrow> Inl e
      | Inr board1 \<Rightarrow>
          (case minimax board1 (\<not> is_maximizing) of
             Inl e \<Rightarrow> Inl e
           | Inr (board2, score, _) \<Rightarrow>
               (case setitem board2 move EMPTY of
                  Inl e \<Rightarrow> Inl e
                | Inr board3 \<Rightarrow>
                    (case update_best is_maximizing score move (best_score, best_move) of
                       (best_score', best_move') \<Rightarrow>
                         minimax_loop board3 is_maximizing moves best_score' best_move'))))"
  by pat_completeness auto

text \<open>
  The next iteration runs on the board the recursive call hands back, so termination
  needs to know that the call hands back what it was given. This is proved first for the
  arguments on which the function is already known to be defined.
\<close>

lemma setitem_Inr: "setitem b i v = Inr b' \<longleftrightarrow> i < length b \<and> b' = b[i := v]"
  by (auto simp: setitem_def)

lemma get_available_moves_filter:
  "get_available_moves b = filter (\<lambda>i. b ! i = EMPTY) [0..<length b]"
proof (induction b rule: rev_induct)
  case Nil
  show ?case by (simp add: get_available_moves_def)
next
  case (snoc x xs)
  have "filter (\<lambda>i. (xs @ [x]) ! i = EMPTY) [0..<length xs] =
        filter (\<lambda>i. xs ! i = EMPTY) [0..<length xs]"
    by (rule filter_cong) (auto simp: nth_append)
  with snoc show ?case
    by (simp add: get_available_moves_def enumerate_append_eq)
qed

lemma set_get_available_moves:
  "set (get_available_moves b) = {i. i < length b \<and> b ! i = EMPTY}"
  by (auto simp: get_available_moves_filter)

lemma mark_not_EMPTY: "(if mx then COMPUTER else PLAYER) \<noteq> EMPTY"
  by (simp add: COMPUTER_def PLAYER_def EMPTY_def)

lemma minimax_frame_partial:
  "minimax_minimax_loop_dom (Inl (b, mx)) \<Longrightarrow> minimax b mx = Inr (b', s, m) \<Longrightarrow> b' = b"
  "minimax_minimax_loop_dom (Inr (b, mx, ms, bs, bm)) \<Longrightarrow>
     (\<forall>i \<in> set ms. i < length b \<longrightarrow> b ! i = EMPTY) \<Longrightarrow>
     minimax_loop b mx ms bs bm = Inr (b', s, m) \<Longrightarrow> b' = b"
proof (induction b mx and b mx ms bs bm arbitrary: b' s m and b' s m
       rule: minimax_minimax_loop.pinduct)
  case (1 board is_maximizing)
  have av: "\<forall>i \<in> set (get_available_moves board). i < length board \<longrightarrow> board ! i = EMPTY"
    by (simp add: set_get_available_moves)
  from "1.prems" "1.hyps" "1.IH"[OF _ _ _ _ _ av] show ?case
    by (auto simp: minimax.psimps split: sum.splits if_splits)
next
  case (2 board is_maximizing best_score best_move)
  then show ?case by (simp add: minimax_loop.psimps)
next
  case (3 board is_maximizing move moves best_score best_move)
  let ?mark = "if is_maximizing then COMPUTER else PLAYER"
  from "3.prems"(2) "3.hyps" obtain b1 b2 sc mv b3 bs2 bm2 where
    s1: "setitem board move ?mark = Inr b1" and
    r: "minimax b1 (\<not> is_maximizing) = Inr (b2, sc, mv)" and
    s3: "setitem b2 move EMPTY = Inr b3" and
    ub: "(bs2, bm2) = update_best is_maximizing sc move (best_score, best_move)" and
    l: "minimax_loop b3 is_maximizing moves bs2 bm2 = Inr (b', s, m)"
    by (auto simp: minimax_loop.psimps split: sum.splits prod.splits)
  from "3.IH"(1)[OF s1 r] have b2: "b2 = b1" .
  from s1 have mv: "move < length board" and b1: "b1 = board[move := ?mark]"
    by (auto simp: setitem_Inr)
  from "3.prems"(1) mv have "board ! move = EMPTY" by simp
  with s3 b2 b1 have b3: "b3 = board"
    using list_update_id[of board move] by (auto simp: setitem_Inr)
  have "b' = b3"
  proof (rule "3.IH"(2)[OF s1 r refl refl s3 ub _ l])
    show "\<forall>i\<in>set moves. i < length b3 \<longrightarrow> b3 ! i = EMPTY" using "3.prems"(1) b3 by simp
  qed
  with b3 show ?case by simp
qed

text \<open>
  The measure: the cells that are Empty or still to be tried. A descent into \<open>minimax\<close>
  fills one of them with a mark, so their number drops on every recursive descent; going
  round the loop may only shorten the list of moves.
\<close>

definition open_cells :: "board \<Rightarrow> nat list \<Rightarrow> nat set" where
  "open_cells b ms = {i. i < length b \<and> (b ! i = EMPTY \<or> i \<in> set ms)}"

fun search_measure ::
  "(board \<times> bool) + (board \<times> bool \<times> nat list \<times> score \<times> nat option) \<Rightarrow> nat \<times> nat" where
  "search_measure (Inl (b, mx)) = (card (open_cells b []), Suc (length b))"
| "search_measure (Inr (b, mx, ms, bs, bm)) = (card (open_cells b ms), length ms)"

lemma finite_open_cells: "finite (open_cells b ms)"
  by (simp add: open_cells_def)

lemma open_cells_available: "open_cells b (get_available_moves b) = open_cells b []"
  by (auto simp: open_cells_def set_get_available_moves)

lemma open_cells_descend:
  assumes "move < length b" "v \<noteq> EMPTY"
  shows "card (open_cells (b[move := v]) []) < card (open_cells b (move # moves))"
proof (rule psubset_card_mono[OF finite_open_cells])
  from assms show "open_cells (b[move := v]) [] \<subset> open_cells b (move # moves)"
    by (auto simp: open_cells_def nth_list_update split: if_splits)
qed

lemma open_cells_next:
  "card (open_cells (b[move := EMPTY]) moves) \<le> card (open_cells b (move # moves))"
proof (rule card_mono[OF finite_open_cells])
  show "open_cells (b[move := EMPTY]) moves \<subseteq> open_cells b (move # moves)"
    unfolding open_cells_def by (auto, metis nth_list_update_neq)
qed

termination minimax
proof (relation "inv_image (less_than <*lex*> less_than) search_measure", goal_cases)
  case 1
  show ?case by (intro wf_inv_image wf_lex_prod wf_less_than)
next
  case (2 board is_maximizing b ba)
  have "length (get_available_moves board) \<le> length board"
    by (simp add: get_available_moves_filter) (metis diff_zero length_filter_le length_upt)
  then show ?case by (simp add: open_cells_available)
next
  case (3 board is_maximizing move moves best_score best_move b)
  then have "move < length board"
    and "b = board[move := (if is_maximizing then COMPUTER else PLAYER)]"
    by (simp_all add: setitem_Inr)
  then show ?case
    using open_cells_descend[OF _ mark_not_EMPTY, of move board is_maximizing moves] by simp
next
  case (4 board is_maximizing move moves best_score best_move b ba x y xa ya bb xb xc)
  from 4 have "minimax b (\<not> is_maximizing) = Inr (x, xa, ya)" by auto
  with 4 have "x = b" using minimax_frame_partial(1) by blast
  with 4 have "bb = board[move := EMPTY]" by (auto simp: setitem_Inr)
  then show ?case using open_cells_next[of board move moves]
    by auto
qed

declare minimax.simps [simp del] minimax_loop.simps(2) [simp del]

text \<open>
  \<open>get_computer_move\<close> keeps the move of the search and, when there is none, takes
  \<open>get_available_moves(board)[0]\<close>, which raises on an empty list.
\<close>

definition get_computer_move :: "board \<Rightarrow> error + board \<times> nat" where
  "get_computer_move board =
     (case minimax board True of
        Inl e \<Rightarrow> Inl e
      | Inr (board', _, move) \<Rightarrow>
          (case move of
             Some m \<Rightarrow> Inr (board', m)
           | None \<Rightarrow>
               (case get_available_moves board' of
                  [] \<Rightarrow> Inl IndexError
                | m # _ \<Rightarrow> Inr (board', m))))"

section \<open>Game loop\<close>

text \<open>
  One round of \<open>play_game\<close>. The state at the head of the \<open>while\<close> loop is the board
  and \<open>current_player\<close>; a \<open>break\<close> ends the round with the announced result. The human's
  input is not computed by the program: \<open>get_player_move\<close> hands back whatever
  \<open>row,col\<close> in \<open>1..3\<close> the human types, once the cell it names is Empty.
\<close>

datatype result = Winner string | Draw

datatype game = Playing board string | Over board result

fun board_of :: "game \<Rightarrow> board" where
  "board_of (Playing board current_player) = board"
| "board_of (Over board outcome) = board"

definition player_may_choose :: "board \<Rightarrow> nat \<Rightarrow> bool" where
  "player_may_choose board index \<longleftrightarrow>
     (\<exists>row \<in> {1, 2, 3}. \<exists>col \<in> {1, 2, 3}. index = (row - 1) * 3 + (col - 1)) \<and>
     getitem board index = Inr EMPTY"

definition after_move :: "board \<Rightarrow> string \<Rightarrow> error + game" where
  "after_move board current_player =
     (case check_win board current_player of
        Inl e \<Rightarrow> Inl e
      | Inr won \<Rightarrow>
          if won then Inr (Over board (Winner current_player))
          else if check_draw board then Inr (Over board Draw)
          else Inr (Playing board (if current_player = PLAYER then COMPUTER else PLAYER)))"

inductive game_step :: "game \<Rightarrow> game \<Rightarrow> bool" where
  player_turn:
    "current_player = PLAYER \<Longrightarrow> player_may_choose board move \<Longrightarrow>
     make_move board move PLAYER = Inr board' \<Longrightarrow>
     after_move board' current_player = Inr g \<Longrightarrow>
     game_step (Playing board current_player) g"
| computer_turn:
    "current_player \<noteq> PLAYER \<Longrightarrow> get_computer_move board = Inr (board1, move) \<Longrightarrow>
     make_move board1 move COMPUTER = Inr board' \<Longrightarrow>
     after_move board' current_player = Inr g \<Longrightarrow>
     game_step (Playing board current_player) g"

definition initial :: game where
  "initial = Playing (replicate 9 EMPTY) PLAYER"

inductive reachable :: "game \<Rightarrow> bool" where
  start: "reachable initial"
| step: "reachable g \<Longrightarrow> game_step g g' \<Longrightarrow> reachable g'"

text \<open>
  The same loop with the computer's choice left open as well: whoever is to move marks
  any Empty cell. Every round of \<open>play_game\<close> is such a play.
\<close>

inductive free_step :: "game \<Rightarrow> game \<Rightarrow> bool" where
  any_turn:
    "getitem board move = Inr EMPTY \<Longrightarrow>
     make_move board move current_player = Inr board' \<Longrightarrow>
     after_move board' current_player = Inr g \<Longrightarrow>
     free_step (Playing board current_player) g"

inductive free_reachable :: "game \<Rightarrow> bool" where
  free_start: "free_reachable initial"
| free_step: "free_reachable g \<Longrightarrow> free_step g g' \<Longrightarrow> free_reachable g'"

section \<open>Notions used to state and prove the properties\<close>

abbreviation mark :: "bool \<Rightarrow> string" where
  "mark is_maximizing \<equiv> (if is_maximizing then COMPUTER else PLAYER)"

text \<open>The score \<open>minimax\<close> returns, and the score it finds behind a candidate move.\<close>

definition score_of :: "board \<Rightarrow> bool \<Rightarrow> int" where
  "score_of board is_maximizing =
     (case minimax board is_maximizing of Inr (_, Fin v, _) \<Rightarrow> v | _ \<Rightarrow> 0)"

definition child_score :: "board \<Rightarrow> bool \<Rightarrow> nat \<Rightarrow> int" where
  "child_score board is_maximizing move =
     score_of (board[move := mark is_maximizing]) (\<not> is_maximizing)"

text \<open>\<open>better mx x y\<close>: the side to move prefers score \<open>x\<close> to score \<open>y\<close>.\<close>

definition better :: "bool \<Rightarrow> int \<Rightarrow> int \<Rightarrow> bool" where
  "better is_maximizing x y = (if is_maximizing then y < x else x < y)"

definition sbetter :: "bool \<Rightarrow> score \<Rightarrow> score \<Rightarrow> bool" where
  "sbetter is_maximizing s t = (if is_maximizing then score_less t s else score_less s t)"

definition in_range :: "int \<Rightarrow> bool" where
  "in_range v \<longleftrightarrow> v = - 1 \<or> v = 0 \<or> v = 1"

definition terminal :: "board \<Rightarrow> bool" where
  "terminal board \<longleftrightarrow>
     check_win board COMPUTER = Inr True \<or> check_win board PLAYER = Inr True \<or> check_draw board"

text \<open>
  What holds of every state of a round: nine cells; while the round goes on, nobody has a
  line; once it is over, at most one side has.
\<close>

definition fair :: "game \<Rightarrow> bool" where
  "fair g = (case g of
       Playing b p \<Rightarrow> length b = 9 \<and> (p = PLAYER \<or> p = COMPUTER) \<and>
                      check_win b PLAYER = Inr False \<and> check_win b COMPUTER = Inr False
     | Over b r \<Rightarrow> length b = 9 \<and>
                      \<not> (check_win b PLAYER = Inr True \<and> check_win b COMPUTER = Inr True))"

text \<open>
  What the computer keeps all through a round: while the round goes on, the search scores the
  position 0 or better for the side to move next; once it is over, \<open>X\<close> has no line.
\<close>

definition safe :: "game \<Rightarrow> bool" where
  "safe g = (case g of
       Playing b p \<Rightarrow> length b = 9 \<and> (p = PLAYER \<or> p = COMPUTER) \<and> \<not> terminal b \<and>
                      0 \<le> score_of b (p = COMPUTER)
     | Over b r \<Rightarrow> length b = 9 \<and> check_win b PLAYER = Inr False \<and>
                      (r = Winner COMPUTER \<or> r = Draw))"

text \<open>The board at the start of a round, written out.\<close>

abbreviation blank :: board where
  "blank \<equiv> [EMPTY, EMPTY, EMPTY, EMPTY, EMPTY, EMPTY, EMPTY, EMPTY, EMPTY]"

text \<open>The loop of \<open>minimax\<close> with the scores of the candidates given by a function.\<close>

fun best_of ::
  "bool \<Rightarrow> (nat \<Rightarrow> int) \<Rightarrow> nat list \<Rightarrow> score \<times> nat option \<Rightarrow> score \<times> nat option" where
  "best_of mx f [] best = best"
| "best_of mx f (m # ms) best = best_of mx f ms (update_best mx (Fin (f m)) m best)"

section \<open>A checker for forced results\<close>

text \<open>
  Running the search itself on the empty board visits over half a million positions. To
  learn on which side of 0 a score lies, it is enough to follow one good move for one side
  and every move for the other. \<open>forces n True b mx\<close> checks that the computer can hold
  the score of \<open>b\<close> at 0 or above, \<open>forces n False b mx\<close> that the human can hold it at
  0 or below; \<open>n\<close> bounds the depth, and the cells are tried centre first, then corners,
  then edges. The checker is not part of the program: what it accepts is proved below to
  hold of \<open>minimax\<close>.
\<close>

definition bound :: "bool \<Rightarrow> int \<Rightarrow> bool" where
  "bound lower v = (if lower then 0 \<le> v else v \<le> 0)"

definition preference :: "nat list" where
  "preference = [4, 0, 2, 6, 8, 1, 3, 5, 7]"

function forces :: "nat \<Rightarrow> bool \<Rightarrow> board \<Rightarrow> bool \<Rightarrow> bool"
  and forces_some :: "nat \<Rightarrow> bool \<Rightarrow> board \<Rightarrow> bool \<Rightarrow> nat list \<Rightarrow> bool"
  and forces_every :: "nat \<Rightarrow> bool \<Rightarrow> board \<Rightarrow> bool \<Rightarrow> nat list \<Rightarrow> bool"
where
  "forces 0 lower b mx = False"
| "forces (Suc n) lower b mx =
     (if check_win b COMPUTER = Inr True then lower
      else if check_win b PLAYER = Inr True then \<not> lower
      else if check_draw b then True
      else if mx = lower then forces_some n lower b mx preference
      else forces_every n lower b mx preference)"
| "forces_some n lower b mx [] = False"
| "forces_some n lower b mx (m # ms) =
     (if b ! m = EMPTY
      then (if forces n lower (b[m := mark mx]) (\<not> mx) then True
            else forces_some n lower b mx ms)
      else forces_some n lower b mx ms)"
| "forces_every n lower b mx [] = True"
| "forces_every n lower b mx (m # ms) =
     (if b ! m = EMPTY
      then (if forces n lower (b[m := mark mx]) (\<not> mx) then forces_every n lower b mx ms
            else False)
      else forces_every n lower b mx ms)"
  by pat_completeness auto

termination forces
  by (relation "inv_image (less_than <*lex*> less_than)
        (\<lambda>x. case x of
            Inl (n, lower, b, mx) \<Rightarrow> (n, 0)
          | Inr (Inl (n, lower, b, mx, ms)) \<Rightarrow> (n, Suc (length ms))
          | Inr (Inr (n, lower, b, mx, ms)) \<Rightarrow> (n, Suc (length ms)))")
     auto

section \<open>Board queries\<close>

lemma getitem_Inr: "i < length b \<Longrightarrow> getitem b i = Inr (b ! i)"
  by (simp add: getitem_def)

lemma all_cells_in_range:
  "\<forall>i \<in> set line. i < length b \<Longrightarrow> all_cells b s line = Inr (\<forall>i \<in> set line. b ! i = s)"
  by (induction line) (auto simp: getitem_Inr)

lemma any_line_in_range:
  "\<forall>line \<in> set lines. \<forall>i \<in> set line. i < length b \<Longrightarrow>
   any_line b s lines = Inr (\<exists>line \<in> set lines. \<forall>i \<in> set line. b ! i = s)"
  by (induction lines) (auto simp: all_cells_in_range)

lemma check_win_nine:
  assumes "length b = 9"
  shows "check_win b s =
     Inr (b ! 0 = s \<and> b ! 1 = s \<and> b ! 2 = s \<or> b ! 3 = s \<and> b ! 4 = s \<and> b ! 5 = s \<or>
          b ! 6 = s \<and> b ! 7 = s \<and> b ! 8 = s \<or> b ! 0 = s \<and> b ! 3 = s \<and> b ! 6 = s \<or>
          b ! 1 = s \<and> b ! 4 = s \<and> b ! 7 = s \<or> b ! 2 = s \<and> b ! 5 = s \<and> b ! 8 = s \<or>
          b ! 0 = s \<and> b ! 4 = s \<and> b ! 8 = s \<or> b ! 2 = s \<and> b ! 4 = s \<and> b ! 6 = s)"
proof -
  have "\<forall>line \<in> set win_lines. \<forall>i \<in> set line. i < length b"
    using assms by (simp add: win_lines_def)
  then show ?thesis
    unfolding check_win_def by (simp add: any_line_in_range) (simp add: win_lines_def)
qed

lemma sorted_get_available_moves: "sorted_wrt (<) (get_available_moves b)"
  by (simp add: get_available_moves_filter sorted_wrt_filter)

lemma get_available_moves_full: "check_draw b \<longleftrightarrow> get_available_moves b = []"
  by (auto simp: check_draw_def get_available_moves_filter list_all_length filter_empty_conv)

lemma avail_two_five:
  assumes "{i. i < length b \<and> b ! i = EMPTY} = {2, 5}"
  shows "get_available_moves b = [2, 5]"
proof -
  have "sorted_wrt (<) (get_available_moves b)" by (rule sorted_get_available_moves)
  moreover have "set (get_available_moves b) = {2, 5}" using assms by (simp add: set_get_available_moves)
  moreover have "sorted_wrt (<) [2, 5 :: nat]" by simp
  ultimately show ?thesis
    using strict_sorted_equal[of "get_available_moves b" "[2, 5]"] by simp
qed

section \<open>Choosing among the candidates\<close>

lemma update_best_eq:
  "update_best mx s m best = (if sbetter mx s (fst best) then (s, Some m) else best)"
  by (cases mx) (auto simp: update_best_def sbetter_def Let_def)

lemma sbetter_Fin [simp]: "sbetter mx (Fin x) (Fin y) = better mx x y"
  by (simp add: sbetter_def better_def)

lemma sbetter_trans: "better mx y x \<Longrightarrow> sbetter mx (Fin x) s \<Longrightarrow> sbetter mx (Fin y) s"
  by (cases s) (auto simp: sbetter_def better_def split: if_splits)

lemma sbetter_neg: "\<not> sbetter mx (Fin x) s \<Longrightarrow> sbetter mx (Fin y) s \<Longrightarrow> better mx y x"
  by (cases s) (auto simp: sbetter_def better_def split: if_splits)

lemma best_of_cases:
  "(best_of mx f ms best = best \<and> (\<forall>m \<in> set ms. \<not> sbetter mx (Fin (f m)) (fst best))) \<or>
   (\<exists>pre m post. ms = pre @ m # post \<and> best_of mx f ms best = (Fin (f m), Some m) \<and>
      sbetter mx (Fin (f m)) (fst best) \<and>
      (\<forall>m' \<in> set pre. better mx (f m) (f m')) \<and>
      (\<forall>m' \<in> set post. \<not> better mx (f m') (f m)))"
  (is "?keep ms best \<or> ?take ms best")
proof (induction ms arbitrary: best)
  case Nil
  show ?case by simp
next
  case (Cons m0 rest)
  let ?best' = "update_best mx (Fin (f m0)) m0 best"
  show ?case
  proof (cases "sbetter mx (Fin (f m0)) (fst best)")
    case True
    then have b': "?best' = (Fin (f m0), Some m0)" by (simp add: update_best_eq)
    from Cons.IH[of ?best'] show ?thesis
    proof
      assume "?keep rest ?best'"
      with b' True have "m0 # rest = [] @ m0 # rest \<and>
        best_of mx f (m0 # rest) best = (Fin (f m0), Some m0) \<and>
        sbetter mx (Fin (f m0)) (fst best) \<and>
        (\<forall>m' \<in> set []. better mx (f m0) (f m')) \<and>
        (\<forall>m' \<in> set rest. \<not> better mx (f m') (f m0))"
        by simp
      then show ?thesis by blast
    next
      assume "?take rest ?best'"
      then obtain pre m post where r: "rest = pre @ m # post"
        and res: "best_of mx f rest ?best' = (Fin (f m), Some m)"
        and bt: "better mx (f m) (f m0)"
        and pre: "\<forall>m' \<in> set pre. better mx (f m) (f m')"
        and post: "\<forall>m' \<in> set post. \<not> better mx (f m') (f m)"
        using b' by auto
      from bt True have "sbetter mx (Fin (f m)) (fst best)" by (rule sbetter_trans)
      with r res bt pre post have "m0 # rest = (m0 # pre) @ m # post \<and>
        best_of mx f (m0 # rest) best = (Fin (f m), Some m) \<and>
        sbetter mx (Fin (f m)) (fst best) \<and>
        (\<forall>m' \<in> set (m0 # pre). better mx (f m) (f m')) \<and>
        (\<forall>m' \<in> set post. \<not> better mx (f m') (f m))"
        by simp
      then show ?thesis by blast
    qed
  next
    case False
    then have b': "?best' = best" by (simp add: update_best_eq)
    from Cons.IH[of ?best'] show ?thesis
    proof
      assume "?keep rest ?best'"
      with b' False show ?thesis by simp
    next
      assume "?take rest ?best'"
      then obtain pre m post where r: "rest = pre @ m # post"
        and res: "best_of mx f rest best = (Fin (f m), Some m)"
        and sb: "sbetter mx (Fin (f m)) (fst best)"
        and pre: "\<forall>m' \<in> set pre. better mx (f m) (f m')"
        and post: "\<forall>m' \<in> set post. \<not> better mx (f m') (f m)"
        using b' by auto
      from False sb have "better mx (f m) (f m0)" by (rule sbetter_neg)
      with r res sb pre post b' have "m0 # rest = (m0 # pre) @ m # post \<and>
        best_of mx f (m0 # rest) best = (Fin (f m), Some m) \<and>
        sbetter mx (Fin (f m)) (fst best) \<and>
        (\<forall>m' \<in> set (m0 # pre). better mx (f m) (f m')) \<and>
        (\<forall>m' \<in> set post. \<not> better mx (f m') (f m))"
        by simp
      then show ?thesis by blast
    qed
  qed
qed

lemma best_of_start:
  assumes "ms \<noteq> []"
  shows "\<exists>pre m post. ms = pre @ m # post \<and>
      best_of mx f ms (if mx then NegInf else PosInf, None) = (Fin (f m), Some m) \<and>
      (\<forall>m' \<in> set pre. better mx (f m) (f m')) \<and>
      (\<forall>m' \<in> set post. \<not> better mx (f m') (f m))"
proof -
  from assms obtain m0 where "m0 \<in> set ms" by (cases ms) auto
  moreover have "sbetter mx (Fin (f m0)) (if mx then NegInf else PosInf)"
    by (simp add: sbetter_def)
  ultimately show ?thesis
    using best_of_cases[of mx f ms "(if mx then NegInf else PosInf, None)"]
    by (cases mx) (auto simp: sbetter_def)
qed

section \<open>What the search returns\<close>

lemma score_of_eq: "minimax b mx = Inr (b', Fin v, mv) \<Longrightarrow> score_of b mx = v"
  by (simp add: score_of_def)

lemma minimax_returns:
  "length b = 9 \<Longrightarrow> \<exists>v mv. minimax b mx = Inr (b, Fin v, mv) \<and> in_range v"
  "length b = 9 \<Longrightarrow> (\<forall>i \<in> set ms. i < 9 \<and> b ! i = EMPTY) \<Longrightarrow>
     minimax_loop b mx ms bs bm =
       (case best_of mx (child_score b mx) ms (bs, bm) of (s, mv) \<Rightarrow> Inr (b, s, mv)) \<and>
     (\<forall>m \<in> set ms. in_range (child_score b mx m))"
proof (induction b mx and b mx ms bs bm rule: minimax_minimax_loop.induct)
  case (1 board is_maximizing)
  note len = \<open>length board = 9\<close>
  show ?case
  proof (cases "check_win board COMPUTER = Inr False \<and> check_win board PLAYER = Inr False
                 \<and> \<not> check_draw board")
    case False
    then show ?thesis
      using check_win_nine[OF len, of COMPUTER] check_win_nine[OF len, of PLAYER]
      by (auto simp: minimax.simps(1)[of board] in_range_def split: sum.splits)
  next
    case True
    let ?ms = "get_available_moves board"
    let ?f = "child_score board is_maximizing"
    have av: "\<forall>i \<in> set ?ms. i < 9 \<and> board ! i = EMPTY"
      using len by (simp add: set_get_available_moves)
    from True have ne: "?ms \<noteq> []" by (simp add: get_available_moves_full)
    from True "1.IH"[OF _ _ _ _ _ len av]
    have loop: "minimax_loop board is_maximizing ?ms (if is_maximizing then NegInf else PosInf) None =
       (case best_of is_maximizing ?f ?ms (if is_maximizing then NegInf else PosInf, None)
        of (s, mv) \<Rightarrow> Inr (board, s, mv))"
      and rng: "\<forall>m \<in> set ?ms. in_range (?f m)"
      by auto
    from best_of_start[OF ne, of is_maximizing ?f] obtain pre m post where
      "?ms = pre @ m # post" and
      "best_of is_maximizing ?f ?ms (if is_maximizing then NegInf else PosInf, None) = (Fin (?f m), Some m)"
      by blast
    with loop rng True show ?thesis
      by (auto simp: minimax.simps(1)[of board])
  qed
next
  case (2 board is_maximizing best_score best_move)
  show ?case by simp
next
  case (3 board is_maximizing move moves best_score best_move)
  note len = \<open>length board = 9\<close>
  let ?b1 = "board[move := mark is_maximizing]"
  from "3.prems" have mv: "move < 9" "board ! move = EMPTY" by auto
  with len have s1: "setitem board move (mark is_maximizing) = Inr ?b1"
    by (simp add: setitem_def)
  from "3.IH"(1)[OF s1] len obtain v mv' where
    r: "minimax ?b1 (\<not> is_maximizing) = Inr (?b1, Fin v, mv')" and v: "in_range v"
    by auto
  from r have cs: "child_score board is_maximizing move = v"
    by (simp add: child_score_def score_of_eq)
  have s3: "setitem ?b1 move EMPTY = Inr board"
    using len mv list_update_id[of board move] by (simp add: setitem_def)
  obtain bs' bm' where ub: "(bs', bm') = update_best is_maximizing (Fin v) move (best_score, best_move)"
    by (metis surj_pair)
  from "3.IH"(2)[OF s1 r refl refl s3 ub len] "3.prems"(2)
  have rest: "minimax_loop board is_maximizing moves bs' bm' =
       (case best_of is_maximizing (child_score board is_maximizing) moves (bs', bm')
        of (s, mv) \<Rightarrow> Inr (board, s, mv))"
    and rng: "\<forall>m \<in> set moves. in_range (child_score board is_maximizing m)"
    by auto
  have "minimax_loop board is_maximizing (move # moves) best_score best_move =
        minimax_loop board is_maximizing moves bs' bm'"
    using s1 r s3 ub[symmetric] by (simp add: minimax_loop.simps(2)[of board])
  with rest rng cs v ub[symmetric] show ?case by simp
qed

lemma minimax_frame:
  "minimax b mx = Inr (b', s, m) \<Longrightarrow> b' = b"
  "(\<forall>i \<in> set ms. i < length b \<longrightarrow> b ! i = EMPTY) \<Longrightarrow>
     minimax_loop b mx ms bs bm = Inr (b', s, m) \<Longrightarrow> b' = b"
proof (induction b mx and b mx ms bs bm arbitrary: b' s m and b' s m
       rule: minimax_minimax_loop.induct)
  case (1 board is_maximizing)
  have av: "\<forall>i \<in> set (get_available_moves board). i < length board \<longrightarrow> board ! i = EMPTY"
    by (simp add: set_get_available_moves)
  from "1.prems" "1.IH"[OF _ _ _ _ _ av] show ?case
    by (auto simp: minimax.simps(1)[of board] split: sum.splits if_splits)
next
  case (2 board is_maximizing best_score best_move)
  then show ?case by simp
next
  case (3 board is_maximizing move moves best_score best_move)
  from "3.prems"(2) obtain b1 b2 sc mv b3 bs2 bm2 where
    s1: "setitem board move (mark is_maximizing) = Inr b1" and
    r: "minimax b1 (\<not> is_maximizing) = Inr (b2, sc, mv)" and
    s3: "setitem b2 move EMPTY = Inr b3" and
    ub: "(bs2, bm2) = update_best is_maximizing sc move (best_score, best_move)" and
    l: "minimax_loop b3 is_maximizing moves bs2 bm2 = Inr (b', s, m)"
    by (auto simp: minimax_loop.simps(2)[of board] split: sum.splits prod.splits)
  from "3.IH"(1)[OF s1 r] have b2: "b2 = b1" .
  from s1 have mv: "move < length board" and b1: "b1 = board[move := mark is_maximizing]"
    by (auto simp: setitem_Inr)
  from "3.prems"(1) mv have "board ! move = EMPTY" by simp
  with s3 b2 b1 have b3: "b3 = board"
    using list_update_id[of board move] by (auto simp: setitem_Inr)
  have "b' = b3"
  proof (rule "3.IH"(2)[OF s1 r refl refl s3 ub _ l])
    show "\<forall>i\<in>set moves. i < length b3 \<longrightarrow> b3 ! i = EMPTY" using "3.prems"(1) b3 by simp
  qed
  with b3 show ?case by simp
qed

lemma terminal_nine:
  "length b = 9 \<Longrightarrow> \<not> terminal b \<longleftrightarrow>
     check_win b COMPUTER = Inr False \<and> check_win b PLAYER = Inr False \<and> \<not> check_draw b"
  using check_win_nine[of b COMPUTER] check_win_nine[of b PLAYER]
  by (auto simp: terminal_def)

lemma minimax_choice:
  assumes len: "length b = 9" and nt: "\<not> terminal b"
  shows "\<exists>pre m post. get_available_moves b = pre @ m # post \<and>
           minimax b mx = Inr (b, Fin (child_score b mx m), Some m) \<and>
           in_range (child_score b mx m) \<and>
           (\<forall>m' \<in> set pre. better mx (child_score b mx m) (child_score b mx m')) \<and>
           (\<forall>m' \<in> set post. \<not> better mx (child_score b mx m') (child_score b mx m))"
proof -
  let ?ms = "get_available_moves b"
  let ?f = "child_score b mx"
  from nt len have c: "check_win b COMPUTER = Inr False" "check_win b PLAYER = Inr False"
    "\<not> check_draw b" by (simp_all add: terminal_nine)
  then have ne: "?ms \<noteq> []" by (simp add: get_available_moves_full)
  have av: "\<forall>i \<in> set ?ms. i < 9 \<and> b ! i = EMPTY"
    using len by (simp add: set_get_available_moves)
  from minimax_returns(2)[OF len av, of mx]
  have loop: "minimax_loop b mx ?ms (if mx then NegInf else PosInf) None =
       (case best_of mx ?f ?ms (if mx then NegInf else PosInf, None) of (s, mv) \<Rightarrow> Inr (b, s, mv))"
    and rng: "\<forall>m \<in> set ?ms. in_range (?f m)"
    by auto
  from best_of_start[OF ne, of mx ?f] obtain pre m post where
    sp: "?ms = pre @ m # post" and
    bo: "best_of mx ?f ?ms (if mx then NegInf else PosInf, None) = (Fin (?f m), Some m)" and
    pre: "\<forall>m' \<in> set pre. better mx (?f m) (?f m')" and
    post: "\<forall>m' \<in> set post. \<not> better mx (?f m') (?f m)"
    by blast
  from c loop bo have "minimax b mx = Inr (b, Fin (?f m), Some m)"
    by (simp add: minimax.simps(1)[of b])
  moreover from sp rng have "in_range (?f m)" by simp
  ultimately show ?thesis using sp pre post by blast
qed

lemma minimax_terminal:
  assumes "length b = 9" "terminal b"
  shows "\<exists>v. minimax b mx = Inr (b, Fin v, None) \<and> in_range v"
  using assms check_win_nine[of b COMPUTER] check_win_nine[of b PLAYER]
  by (auto simp: terminal_def minimax.simps(1)[of b] in_range_def)

lemma distinct_get_available_moves: "distinct (get_available_moves b)"
  by (simp add: get_available_moves_filter)

lemma get_available_moves_descend:
  assumes "m \<in> set (get_available_moves b)" "v \<noteq> EMPTY"
  shows "length (get_available_moves (b[m := v])) < length (get_available_moves b)"
proof -
  from assms have m: "m < length b" "b ! m = EMPTY" by (simp_all add: set_get_available_moves)
  have "set (get_available_moves (b[m := v])) \<subset> set (get_available_moves b)"
    using m assms(2) by (auto simp: set_get_available_moves nth_list_update)
  then have "card (set (get_available_moves (b[m := v]))) < card (set (get_available_moves b))"
    by (intro psubset_card_mono) simp_all
  then show ?thesis by (simp add: distinct_card distinct_get_available_moves)
qed

lemma better_irrefl: "\<not> better mx x x"
  by (simp add: better_def)

lemma better_asym: "better mx x y \<Longrightarrow> \<not> better mx y x"
  by (auto simp: better_def split: if_splits)

lemma minimax_first_best:
  assumes len: "length b = 9" and nt: "\<not> terminal b"
  shows "\<exists>m \<in> set (get_available_moves b).
           minimax b mx = Inr (b, Fin (child_score b mx m), Some m) \<and>
           (\<forall>m' \<in> set (get_available_moves b).
              \<not> better mx (child_score b mx m') (child_score b mx m) \<and>
              (child_score b mx m' = child_score b mx m \<longrightarrow> m \<le> m'))"
proof -
  let ?f = "child_score b mx"
  from minimax_choice[OF len nt, of mx] obtain pre m post where
    sp: "get_available_moves b = pre @ m # post" and
    r: "minimax b mx = Inr (b, Fin (?f m), Some m)" and
    pre: "\<forall>m' \<in> set pre. better mx (?f m) (?f m')" and
    post: "\<forall>m' \<in> set post. \<not> better mx (?f m') (?f m)"
    by blast
  from sorted_get_available_moves[of b] sp have later: "\<forall>m' \<in> set post. m < m'"
    by (simp add: sorted_wrt_append)
  have "\<not> better mx (?f m') (?f m) \<and> (?f m' = ?f m \<longrightarrow> m \<le> m')"
    if "m' \<in> set (get_available_moves b)" for m'
  proof -
    from that sp consider "m' \<in> set pre" | "m' = m" | "m' \<in> set post" by auto
    then show ?thesis
    proof cases
      case 1
      with pre have "better mx (?f m) (?f m')" by simp
      then show ?thesis using better_asym better_irrefl by metis
    next
      case 2
      then show ?thesis by (simp add: better_irrefl)
    next
      case 3
      with post later show ?thesis by (simp add: less_imp_le)
    qed
  qed
  with sp r show ?thesis by auto
qed

text \<open>Rules that run the search on a board written out cell by cell.\<close>

lemmas run_search = minimax.simps minimax_loop.simps check_win_def win_lines_def getitem_def
  setitem_def check_draw_def get_available_moves_def update_best_def
  PLAYER_def COMPUTER_def EMPTY_def

section \<open>Properties of the board queries\<close>

text \<open>
  C7. On a board of nine cells \<open>check_win\<close> answers True exactly when one of the eight
  triples 0-1-2, 3-4-5, 6-7-8, 0-3-6, 1-4-7, 2-5-8, 0-4-8, 2-4-6 holds the symbol in all three
  cells. The function only reads the board: it returns a truth value and no board.
\<close>

theorem check_win_iff_line:
  assumes "length board = 9"
  shows "check_win board symbol =
     Inr (board ! 0 = symbol \<and> board ! 1 = symbol \<and> board ! 2 = symbol \<or>
          board ! 3 = symbol \<and> board ! 4 = symbol \<and> board ! 5 = symbol \<or>
          board ! 6 = symbol \<and> board ! 7 = symbol \<and> board ! 8 = symbol \<or>
          board ! 0 = symbol \<and> board ! 3 = symbol \<and> board ! 6 = symbol \<or>
          board ! 1 = symbol \<and> board ! 4 = symbol \<and> board ! 7 = symbol \<or>
          board ! 2 = symbol \<and> board ! 5 = symbol \<and> board ! 8 = symbol \<or>
          board ! 0 = symbol \<and> board ! 4 = symbol \<and> board ! 8 = symbol \<or>
          board ! 2 = symbol \<and> board ! 4 = symbol \<and> board ! 6 = symbol)"
  using assms by (rule check_win_nine)

theorem check_win_iff_line_witness:
  "length [PLAYER, EMPTY, COMPUTER, EMPTY, PLAYER, EMPTY, COMPUTER, EMPTY, PLAYER] = 9 \<and>
   check_win [PLAYER, EMPTY, COMPUTER, EMPTY, PLAYER, EMPTY, COMPUTER, EMPTY, PLAYER] PLAYER = Inr True \<and>
   check_win [PLAYER, EMPTY, COMPUTER, EMPTY, PLAYER, EMPTY, COMPUTER, EMPTY, PLAYER] COMPUTER = Inr False"
  using check_win_iff_line[of "[PLAYER, EMPTY, COMPUTER, EMPTY, PLAYER, EMPTY, COMPUTER, EMPTY, PLAYER]" PLAYER]
    check_win_iff_line[of "[PLAYER, EMPTY, COMPUTER, EMPTY, PLAYER, EMPTY, COMPUTER, EMPTY, PLAYER]" COMPUTER]
  by (simp add: PLAYER_def COMPUTER_def EMPTY_def)

text \<open>
  C8. \<open>get_available_moves\<close> returns exactly the indices of the Empty cells, in strictly
  ascending order; it returns the empty list on a full board, and \<open>[2, 5]\<close> on a board whose
  Empty cells are exactly 2 and 5.
\<close>

theorem get_available_moves_ascending:
  "set (get_available_moves board) = {i. i < length board \<and> board ! i = EMPTY} \<and>
   sorted_wrt (<) (get_available_moves board) \<and>
   (check_draw board \<longrightarrow> get_available_moves board = []) \<and>
   ({i. i < length board \<and> board ! i = EMPTY} = {2, 5} \<longrightarrow> get_available_moves board = [2, 5])"
  using set_get_available_moves sorted_get_available_moves get_available_moves_full avail_two_five
  by blast

theorem get_available_moves_ascending_witness:
  "check_draw [PLAYER, COMPUTER, PLAYER, PLAYER, COMPUTER, COMPUTER, COMPUTER, PLAYER, PLAYER] \<and>
   get_available_moves [PLAYER, COMPUTER, PLAYER, PLAYER, COMPUTER, COMPUTER, COMPUTER, PLAYER, PLAYER] = [] \<and>
   {i. i < length [PLAYER, COMPUTER, EMPTY, PLAYER, COMPUTER, EMPTY, COMPUTER, PLAYER, PLAYER] \<and>
       [PLAYER, COMPUTER, EMPTY, PLAYER, COMPUTER, EMPTY, COMPUTER, PLAYER, PLAYER] ! i = EMPTY} = {2, 5} \<and>
   get_available_moves [PLAYER, COMPUTER, EMPTY, PLAYER, COMPUTER, EMPTY, COMPUTER, PLAYER, PLAYER] = [2, 5]"
proof -
  let ?full = "[PLAYER, COMPUTER, PLAYER, PLAYER, COMPUTER, COMPUTER, COMPUTER, PLAYER, PLAYER]"
  let ?two = "[PLAYER, COMPUTER, EMPTY, PLAYER, COMPUTER, EMPTY, COMPUTER, PLAYER, PLAYER]"
  have d: "check_draw ?full" by (simp add: check_draw_def PLAYER_def COMPUTER_def EMPTY_def)
  have "get_available_moves ?two = [2, 5]"
    by (simp add: get_available_moves_def PLAYER_def COMPUTER_def EMPTY_def)
  then have e: "{i. i < length ?two \<and> ?two ! i = EMPTY} = {2, 5}"
    using set_get_available_moves[of ?two] by simp
  from d e get_available_moves_ascending[of ?full] get_available_moves_ascending[of ?two]
  show ?thesis by blast
qed

text \<open>
  C10. \<open>check_win\<close> treats the Empty marker like any symbol: asked about \<open>EMPTY\<close> it
  reports a line of blanks, on the all-Empty board and on every nine-cell board with a line of
  Empty cells.
\<close>

theorem check_win_of_blanks:
  "check_win (replicate 9 EMPTY) EMPTY = Inr True \<and>
   (length board = 9 \<longrightarrow> line \<in> set win_lines \<longrightarrow> (\<forall>i \<in> set line. board ! i = EMPTY) \<longrightarrow>
      check_win board EMPTY = Inr True)"
proof -
  have "\<forall>l \<in> set win_lines. \<forall>i \<in> set l. i < 9" by (simp add: win_lines_def)
  then have "length board = 9 \<Longrightarrow> line \<in> set win_lines \<Longrightarrow> \<forall>i \<in> set line. board ! i = EMPTY \<Longrightarrow>
      check_win board EMPTY = Inr True" for board :: board and line
    unfolding check_win_def by (subst any_line_in_range) auto
  moreover have "[0, 1, 2] \<in> set win_lines" by (simp add: win_lines_def)
  moreover have "\<forall>i \<in> set [0, 1, 2]. replicate 9 EMPTY ! i = EMPTY" by simp
  ultimately show ?thesis by (metis length_replicate)
qed

theorem check_win_of_blanks_witness:
  "length [PLAYER, COMPUTER, EMPTY, PLAYER, COMPUTER, EMPTY, COMPUTER, PLAYER, EMPTY] = 9 \<and>
   [2, 5, 8] \<in> set win_lines \<and>
   [PLAYER, COMPUTER, EMPTY, PLAYER, COMPUTER, EMPTY, COMPUTER, PLAYER, EMPTY] ! 2 = EMPTY \<and>
   [PLAYER, COMPUTER, EMPTY, PLAYER, COMPUTER, EMPTY, COMPUTER, PLAYER, EMPTY] ! 5 = EMPTY \<and>
   [PLAYER, COMPUTER, EMPTY, PLAYER, COMPUTER, EMPTY, COMPUTER, PLAYER, EMPTY] ! 8 = EMPTY \<and>
   check_win [PLAYER, COMPUTER, EMPTY, PLAYER, COMPUTER, EMPTY, COMPUTER, PLAYER, EMPTY] EMPTY = Inr True"
  using check_win_of_blanks[of "[PLAYER, COMPUTER, EMPTY, PLAYER, COMPUTER, EMPTY, COMPUTER, PLAYER, EMPTY]" "[2, 5, 8]"]
  by (simp add: win_lines_def)

section \<open>Properties of the search\<close>

text \<open>
  C2. Whenever \<open>minimax\<close> returns, the board it hands back is the board it was given, for
  every board and either value of the flag, and so for every recursive call; the same holds for
  the loop run on cells that are Empty. On a board of nine cells the call does return, also when
  a terminal check answers before any candidate is tried.
\<close>

theorem minimax_restores_board:
  "(\<forall>board' best_score best_move.
      minimax board is_maximizing = Inr (board', best_score, best_move) \<longrightarrow> board' = board) \<and>
   (\<forall>board' best_score best_move.
      (\<forall>i \<in> set moves. i < length board \<longrightarrow> board ! i = EMPTY) \<longrightarrow>
      minimax_loop board is_maximizing moves s0 m0 = Inr (board', best_score, best_move) \<longrightarrow>
      board' = board) \<and>
   (length board = 9 \<longrightarrow>
      (\<exists>best_score best_move. minimax board is_maximizing = Inr (board, best_score, best_move)))"
  using minimax_frame minimax_returns(1)[of board is_maximizing] by blast

theorem minimax_restores_board_witness:
  "length [PLAYER, COMPUTER, PLAYER, PLAYER, COMPUTER, COMPUTER, COMPUTER, PLAYER, EMPTY] = 9 \<and>
   minimax [PLAYER, COMPUTER, PLAYER, PLAYER, COMPUTER, COMPUTER, COMPUTER, PLAYER, EMPTY] True =
     Inr ([PLAYER, COMPUTER, PLAYER, PLAYER, COMPUTER, COMPUTER, COMPUTER, PLAYER, EMPTY],
          Fin 0, Some 8) \<and>
   [PLAYER, COMPUTER, PLAYER, PLAYER, COMPUTER, COMPUTER, COMPUTER, PLAYER, EMPTY] ! 8 = EMPTY \<and>
   minimax_loop [PLAYER, COMPUTER, PLAYER, PLAYER, COMPUTER, COMPUTER, COMPUTER, PLAYER, EMPTY]
     True [8] NegInf None =
     Inr ([PLAYER, COMPUTER, PLAYER, PLAYER, COMPUTER, COMPUTER, COMPUTER, PLAYER, EMPTY],
          Fin 0, Some 8)"
  using minimax_restores_board
    [of "[PLAYER, COMPUTER, PLAYER, PLAYER, COMPUTER, COMPUTER, COMPUTER, PLAYER, EMPTY]"
        True "[8]" NegInf None]
  by (simp add: run_search)

text \<open>
  C4. On a board of nine cells the terminal checks come in this order: a line of \<open>O\<close>
  gives \<open>(1, None)\<close> whatever else holds; otherwise a line of \<open>X\<close> gives
  \<open>(-1, None)\<close>; otherwise a full board gives \<open>(0, None)\<close>; only otherwise the
  candidates are tried.
\<close>

theorem minimax_terminal_order:
  assumes "length board = 9"
  shows "(check_win board COMPUTER = Inr True \<longrightarrow>
            minimax board is_maximizing = Inr (board, Fin 1, None)) \<and>
         (check_win board COMPUTER \<noteq> Inr True \<and> check_win board PLAYER = Inr True \<longrightarrow>
            minimax board is_maximizing = Inr (board, Fin (- 1), None)) \<and>
         (check_win board COMPUTER \<noteq> Inr True \<and> check_win board PLAYER \<noteq> Inr True \<and>
          check_draw board \<longrightarrow>
            minimax board is_maximizing = Inr (board, Fin 0, None)) \<and>
         (check_win board COMPUTER \<noteq> Inr True \<and> check_win board PLAYER \<noteq> Inr True \<and>
          \<not> check_draw board \<longrightarrow>
            minimax board is_maximizing =
              minimax_loop board is_maximizing (get_available_moves board)
                (if is_maximizing then NegInf else PosInf) None)"
  using check_win_nine[OF assms, of COMPUTER] check_win_nine[OF assms, of PLAYER]
  by (auto simp: minimax.simps(1)[of board] split: sum.splits)

theorem minimax_terminal_order_witness:
  "check_win [COMPUTER, COMPUTER, COMPUTER, PLAYER, PLAYER, PLAYER, EMPTY, EMPTY, EMPTY] COMPUTER
     = Inr True \<and>
   check_win [COMPUTER, COMPUTER, COMPUTER, PLAYER, PLAYER, PLAYER, EMPTY, EMPTY, EMPTY] PLAYER
     = Inr True \<and>
   minimax [COMPUTER, COMPUTER, COMPUTER, PLAYER, PLAYER, PLAYER, EMPTY, EMPTY, EMPTY] False =
     Inr ([COMPUTER, COMPUTER, COMPUTER, PLAYER, PLAYER, PLAYER, EMPTY, EMPTY, EMPTY], Fin 1, None) \<and>
   check_win [PLAYER, PLAYER, PLAYER, COMPUTER, COMPUTER, PLAYER, COMPUTER, PLAYER, COMPUTER] COMPUTER
     \<noteq> Inr True \<and>
   check_win [PLAYER, PLAYER, PLAYER, COMPUTER, COMPUTER, PLAYER, COMPUTER, PLAYER, COMPUTER] PLAYER
     = Inr True \<and>
   check_draw [PLAYER, PLAYER, PLAYER, COMPUTER, COMPUTER, PLAYER, COMPUTER, PLAYER, COMPUTER] \<and>
   minimax [PLAYER, PLAYER, PLAYER, COMPUTER, COMPUTER, PLAYER, COMPUTER, PLAYER, COMPUTER] True =
     Inr ([PLAYER, PLAYER, PLAYER, COMPUTER, COMPUTER, PLAYER, COMPUTER, PLAYER, COMPUTER],
          Fin (- 1), None) \<and>
   check_win [PLAYER, COMPUTER, PLAYER, PLAYER, COMPUTER, COMPUTER, COMPUTER, PLAYER, PLAYER] COMPUTER
     \<noteq> Inr True \<and>
   check_win [PLAYER, COMPUTER, PLAYER, PLAYER, COMPUTER, COMPUTER, COMPUTER, PLAYER, PLAYER] PLAYER
     \<noteq> Inr True \<and>
   check_draw [PLAYER, COMPUTER, PLAYER, PLAYER, COMPUTER, COMPUTER, COMPUTER, PLAYER, PLAYER] \<and>
   minimax [PLAYER, COMPUTER, PLAYER, PLAYER, COMPUTER, COMPUTER, COMPUTER, PLAYER, PLAYER] True =
     Inr ([PLAYER, COMPUTER, PLAYER, PLAYER, COMPUTER, COMPUTER, COMPUTER, PLAYER, PLAYER],
          Fin 0, None) \<and>
   check_win [PLAYER, COMPUTER, PLAYER, PLAYER, COMPUTER, COMPUTER, COMPUTER, PLAYER, EMPTY] COMPUTER
     \<noteq> Inr True \<and>
   check_win [PLAYER, COMPUTER, PLAYER, PLAYER, COMPUTER, COMPUTER, COMPUTER, PLAYER, EMPTY] PLAYER
     \<noteq> Inr True \<and>
   \<not> check_draw [PLAYER, COMPUTER, PLAYER, PLAYER, COMPUTER, COMPUTER, COMPUTER, PLAYER, EMPTY] \<and>
   minimax [PLAYER, COMPUTER, PLAYER, PLAYER, COMPUTER, COMPUTER, COMPUTER, PLAYER, EMPTY] True =
     minimax_loop [PLAYER, COMPUTER, PLAYER, PLAYER, COMPUTER, COMPUTER, COMPUTER, PLAYER, EMPTY]
       True [8] NegInf None"
proof -
  let ?both = "[COMPUTER, COMPUTER, COMPUTER, PLAYER, PLAYER, PLAYER, EMPTY, EMPTY, EMPTY]"
  let ?lost = "[PLAYER, PLAYER, PLAYER, COMPUTER, COMPUTER, PLAYER, COMPUTER, PLAYER, COMPUTER]"
  let ?full = "[PLAYER, COMPUTER, PLAYER, PLAYER, COMPUTER, COMPUTER, COMPUTER, PLAYER, PLAYER]"
  let ?open = "[PLAYER, COMPUTER, PLAYER, PLAYER, COMPUTER, COMPUTER, COMPUTER, PLAYER, EMPTY]"
  have c: "check_win ?both COMPUTER = Inr True" "check_win ?both PLAYER = Inr True"
    "check_win ?lost COMPUTER \<noteq> Inr True" "check_win ?lost PLAYER = Inr True"
    "check_win ?full COMPUTER \<noteq> Inr True" "check_win ?full PLAYER \<noteq> Inr True"
    "check_win ?open COMPUTER \<noteq> Inr True" "check_win ?open PLAYER \<noteq> Inr True"
    by (simp_all add: check_win_def win_lines_def getitem_def PLAYER_def COMPUTER_def EMPTY_def)
  have d: "check_draw ?lost" "check_draw ?full" "\<not> check_draw ?open"
    by (simp_all add: check_draw_def PLAYER_def COMPUTER_def EMPTY_def)
  have a: "get_available_moves ?open = [8]"
    by (simp add: get_available_moves_def PLAYER_def COMPUTER_def EMPTY_def)
  from c d a
    minimax_terminal_order[of ?both False] minimax_terminal_order[of ?lost True]
    minimax_terminal_order[of ?full True] minimax_terminal_order[of ?open True]
  show ?thesis by simp
qed

text \<open>
  C5. On a board of nine cells with an Empty cell and no line for either symbol,
  \<open>minimax\<close> returns a score among -1, 0, 1 and a move that is an Empty cell. On every
  board of nine cells it returns such a score, and the move is \<open>None\<close> exactly on terminal
  boards. Each candidate move leaves strictly fewer Empty cells for the recursive call.
\<close>

theorem minimax_total:
  assumes "length board = 9"
  shows "(\<not> check_draw board \<and> check_win board COMPUTER = Inr False \<and>
          check_win board PLAYER = Inr False \<longrightarrow>
            (\<exists>v m. minimax board is_maximizing = Inr (board, Fin v, Some m) \<and>
                    (v = - 1 \<or> v = 0 \<or> v = 1) \<and> m \<in> set (get_available_moves board))) \<and>
         (\<exists>v best_move. minimax board is_maximizing = Inr (board, Fin v, best_move) \<and>
                    (v = - 1 \<or> v = 0 \<or> v = 1) \<and> (best_move = None \<longleftrightarrow> terminal board)) \<and>
         (\<forall>m \<in> set (get_available_moves board).
            length (get_available_moves (board[m := mark is_maximizing]))
              < length (get_available_moves board))"
proof (intro conjI)
  show "\<forall>m \<in> set (get_available_moves board).
          length (get_available_moves (board[m := mark is_maximizing]))
            < length (get_available_moves board)"
    using get_available_moves_descend[OF _ mark_not_EMPTY] by blast
next
  show "\<not> check_draw board \<and> check_win board COMPUTER = Inr False \<and>
        check_win board PLAYER = Inr False \<longrightarrow>
          (\<exists>v m. minimax board is_maximizing = Inr (board, Fin v, Some m) \<and>
                  (v = - 1 \<or> v = 0 \<or> v = 1) \<and> m \<in> set (get_available_moves board))"
  proof
    assume "\<not> check_draw board \<and> check_win board COMPUTER = Inr False \<and>
            check_win board PLAYER = Inr False"
    with assms have "\<not> terminal board" by (simp add: terminal_nine)
    from minimax_choice[OF assms this, of is_maximizing] show
      "\<exists>v m. minimax board is_maximizing = Inr (board, Fin v, Some m) \<and>
             (v = - 1 \<or> v = 0 \<or> v = 1) \<and> m \<in> set (get_available_moves board)"
      by (auto simp: in_range_def)
  qed
next
  show "\<exists>v best_move. minimax board is_maximizing = Inr (board, Fin v, best_move) \<and>
          (v = - 1 \<or> v = 0 \<or> v = 1) \<and> (best_move = None \<longleftrightarrow> terminal board)"
  proof (cases "terminal board")
    case True
    from minimax_terminal[OF assms True, of is_maximizing] True show ?thesis
      by (auto simp: in_range_def)
  next
    case False
    from minimax_choice[OF assms False, of is_maximizing] False show ?thesis
      by (auto simp: in_range_def)
  qed
qed

theorem minimax_total_witness:
  "length [PLAYER, COMPUTER, PLAYER, PLAYER, COMPUTER, COMPUTER, COMPUTER, PLAYER, EMPTY] = 9 \<and>
   \<not> check_draw [PLAYER, COMPUTER, PLAYER, PLAYER, COMPUTER, COMPUTER, COMPUTER, PLAYER, EMPTY] \<and>
   check_win [PLAYER, COMPUTER, PLAYER, PLAYER, COMPUTER, COMPUTER, COMPUTER, PLAYER, EMPTY] COMPUTER
     = Inr False \<and>
   check_win [PLAYER, COMPUTER, PLAYER, PLAYER, COMPUTER, COMPUTER, COMPUTER, PLAYER, EMPTY] PLAYER
     = Inr False \<and>
   (\<exists>v m. minimax [PLAYER, COMPUTER, PLAYER, PLAYER, COMPUTER, COMPUTER, COMPUTER, PLAYER, EMPTY]
            False =
          Inr ([PLAYER, COMPUTER, PLAYER, PLAYER, COMPUTER, COMPUTER, COMPUTER, PLAYER, EMPTY],
               Fin v, Some m) \<and> (v = - 1 \<or> v = 0 \<or> v = 1)) \<and>
   8 \<in> set (get_available_moves
              [PLAYER, COMPUTER, PLAYER, PLAYER, COMPUTER, COMPUTER, COMPUTER, PLAYER, EMPTY]) \<and>
   length (get_available_moves
             [PLAYER, COMPUTER, PLAYER, PLAYER, COMPUTER, COMPUTER, COMPUTER, PLAYER, PLAYER])
     < length (get_available_moves
             [PLAYER, COMPUTER, PLAYER, PLAYER, COMPUTER, COMPUTER, COMPUTER, PLAYER, EMPTY])"
proof -
  let ?open = "[PLAYER, COMPUTER, PLAYER, PLAYER, COMPUTER, COMPUTER, COMPUTER, PLAYER, EMPTY]"
  have c: "check_win ?open COMPUTER = Inr False" "check_win ?open PLAYER = Inr False"
    by (simp_all add: check_win_def win_lines_def getitem_def PLAYER_def COMPUTER_def EMPTY_def)
  have d: "\<not> check_draw ?open"
    by (simp add: check_draw_def PLAYER_def COMPUTER_def EMPTY_def)
  have a: "get_available_moves ?open = [8]"
    by (simp add: get_available_moves_def PLAYER_def COMPUTER_def EMPTY_def)
  have l: "length ?open = 9" by simp
  from minimax_total[OF l, of False] c d a show ?thesis
    by auto
qed

lemma get_computer_move_frame: "get_computer_move b = Inr (b', m) \<Longrightarrow> b' = b"
  by (auto simp: get_computer_move_def minimax_frame(1)
           split: sum.splits option.splits list.splits)

text \<open>
  C6, as the code has it. When the search returns no move on a board of nine cells that
  still has an Empty cell (a board already won), \<open>get_computer_move\<close> returns the first
  entry of \<open>get_available_moves(board)\<close>, the lowest Empty index, and the board is as it
  was. The fallback needs that entry: the statement does not reach full boards.
\<close>

theorem get_computer_move_fallback:
  assumes "length board = 9"
    and "minimax board True = Inr (board', best_score, None)"
    and "\<not> check_draw board"
  shows "\<exists>m ms. get_available_moves board = m # ms \<and>
                get_computer_move board = Inr (board, m)"
proof -
  from assms(2) have "board' = board" by (rule minimax_frame(1))
  with assms(2,3) show ?thesis
    by (cases "get_available_moves board")
       (auto simp: get_computer_move_def get_available_moves_full)
qed

theorem get_computer_move_fallback_witness:
  "length [PLAYER, PLAYER, PLAYER, COMPUTER, COMPUTER, EMPTY, EMPTY, EMPTY, EMPTY] = 9 \<and>
   minimax [PLAYER, PLAYER, PLAYER, COMPUTER, COMPUTER, EMPTY, EMPTY, EMPTY, EMPTY] True =
     Inr ([PLAYER, PLAYER, PLAYER, COMPUTER, COMPUTER, EMPTY, EMPTY, EMPTY, EMPTY],
          Fin (- 1), None) \<and>
   \<not> check_draw [PLAYER, PLAYER, PLAYER, COMPUTER, COMPUTER, EMPTY, EMPTY, EMPTY, EMPTY] \<and>
   get_available_moves [PLAYER, PLAYER, PLAYER, COMPUTER, COMPUTER, EMPTY, EMPTY, EMPTY, EMPTY]
     = [5, 6, 7, 8] \<and>
   get_computer_move [PLAYER, PLAYER, PLAYER, COMPUTER, COMPUTER, EMPTY, EMPTY, EMPTY, EMPTY] =
     Inr ([PLAYER, PLAYER, PLAYER, COMPUTER, COMPUTER, EMPTY, EMPTY, EMPTY, EMPTY], 5)"
proof -
  let ?won = "[PLAYER, PLAYER, PLAYER, COMPUTER, COMPUTER, EMPTY, EMPTY, EMPTY, EMPTY]"
  have w: "minimax ?won True = Inr (?won, Fin (- 1), None)" by (simp add: run_search)
  have d: "\<not> check_draw ?won"
    by (simp add: check_draw_def PLAYER_def COMPUTER_def EMPTY_def)
  have a: "get_available_moves ?won = [5, 6, 7, 8]"
    by (simp add: get_available_moves_def PLAYER_def COMPUTER_def EMPTY_def)
  from get_computer_move_fallback[OF _ w d] w d a show ?thesis by simp
qed

text \<open>
  C6 on a full board: the fallback has nothing to take. The drawn board
  \<open>X O X / X O O / O X X\<close>: the search returns \<open>(0, None)\<close>,
  \<open>get_available_moves\<close> is empty, and \<open>get_available_moves(board)[0]\<close> raises
  \<open>IndexError\<close> out of \<open>get_computer_move\<close>.
\<close>

theorem get_computer_move_full_board:
  "minimax [PLAYER, COMPUTER, PLAYER, PLAYER, COMPUTER, COMPUTER, COMPUTER, PLAYER, PLAYER] True =
     Inr ([PLAYER, COMPUTER, PLAYER, PLAYER, COMPUTER, COMPUTER, COMPUTER, PLAYER, PLAYER], Fin 0, None) \<and>
   get_available_moves [PLAYER, COMPUTER, PLAYER, PLAYER, COMPUTER, COMPUTER, COMPUTER, PLAYER, PLAYER] = [] \<and>
   get_computer_move [PLAYER, COMPUTER, PLAYER, PLAYER, COMPUTER, COMPUTER, COMPUTER, PLAYER, PLAYER] =
     Inl IndexError"
  by (simp add: get_computer_move_def run_search)

section \<open>Bounds on the score\<close>

lemma score_of_terminal:
  assumes "length b = 9"
  shows "check_win b COMPUTER = Inr True \<Longrightarrow> score_of b mx = 1"
    and "check_win b COMPUTER \<noteq> Inr True \<Longrightarrow> check_win b PLAYER = Inr True \<Longrightarrow>
           score_of b mx = - 1"
    and "check_win b COMPUTER \<noteq> Inr True \<Longrightarrow> check_win b PLAYER \<noteq> Inr True \<Longrightarrow>
           check_draw b \<Longrightarrow> score_of b mx = 0"
  using check_win_nine[OF assms, of COMPUTER] check_win_nine[OF assms, of PLAYER]
  by (auto simp: score_of_def minimax.simps(1)[of b])

lemma score_choice:
  assumes "length b = 9" "\<not> terminal b"
  shows "\<exists>m \<in> set (get_available_moves b). score_of b mx = child_score b mx m \<and>
           (\<forall>m' \<in> set (get_available_moves b).
              \<not> better mx (child_score b mx m') (child_score b mx m))"
  using minimax_first_best[OF assms, of mx] by (auto simp: score_of_def)

lemma bound_mover:
  assumes "length b = 9" "\<not> terminal b" "m \<in> set (get_available_moves b)"
    and "bound mx (child_score b mx m)"
  shows "bound mx (score_of b mx)"
proof -
  from score_choice[OF assms(1,2), of mx] obtain m0 where
    "score_of b mx = child_score b mx m0"
    "\<not> better mx (child_score b mx m) (child_score b mx m0)"
    using assms(3) by blast
  with assms(4) show ?thesis by (cases mx) (auto simp: bound_def better_def)
qed

lemma bound_other:
  assumes "length b = 9" "\<not> terminal b"
    and "\<forall>m \<in> set (get_available_moves b). bound lower (child_score b mx m)"
  shows "bound lower (score_of b mx)"
  using score_choice[OF assms(1,2), of mx] assms(3) by auto

lemma available_preference:
  "length b = 9 \<Longrightarrow> m \<in> set (get_available_moves b) \<longleftrightarrow> m \<in> set preference \<and> b ! m = EMPTY"
  by (auto simp: set_get_available_moves preference_def)

lemma forces_sound:
  "length b = 9 \<Longrightarrow> forces n lower b mx \<Longrightarrow> bound lower (score_of b mx)"
  "length b = 9 \<Longrightarrow> forces_some n lower b mx ms \<Longrightarrow>
     \<exists>m \<in> set ms. b ! m = EMPTY \<and> bound lower (child_score b mx m)"
  "length b = 9 \<Longrightarrow> forces_every n lower b mx ms \<Longrightarrow>
     \<forall>m \<in> set ms. b ! m = EMPTY \<longrightarrow> bound lower (child_score b mx m)"
proof (induction n lower b mx and n lower b mx ms and n lower b mx ms
       rule: forces_forces_some_forces_every.induct)
  case (1 lower b mx)
  then show ?case by simp
next
  case (2 n lower b mx)
  note len = \<open>length b = 9\<close>
  show ?case
  proof (cases "terminal b")
    case True
    with "2.prems" show ?thesis
      using score_of_terminal[OF len, of mx]
      by (auto simp: terminal_def bound_def split: if_splits)
  next
    case False
    then have c: "check_win b COMPUTER \<noteq> Inr True" "check_win b PLAYER \<noteq> Inr True"
      "\<not> check_draw b" by (simp_all add: terminal_def)
    show ?thesis
    proof (cases "mx = lower")
      case True
      with c "2.prems" have "forces_some n lower b mx preference" by simp
      from "2.IH"(1)[OF c True len this] obtain m where
        "m \<in> set preference" "b ! m = EMPTY" "bound lower (child_score b mx m)" by blast
      with len True have "m \<in> set (get_available_moves b)" "bound mx (child_score b mx m)"
        by (simp_all add: available_preference)
      with bound_mover[OF len False] True show ?thesis by blast
    next
      case ne: False
      with c "2.prems" have "forces_every n lower b mx preference" by simp
      from "2.IH"(2)[OF c ne len this] len
      have "\<forall>m \<in> set (get_available_moves b). bound lower (child_score b mx m)"
        by (simp add: available_preference)
      with bound_other[OF len False] show ?thesis by blast
    qed
  qed
next
  case (3 n lower b mx)
  then show ?case by simp
next
  case (4 n lower b mx m ms)
  note len = \<open>length b = 9\<close>
  show ?case
  proof (cases "b ! m = EMPTY \<and> forces n lower (b[m := mark mx]) (\<not> mx)")
    case True
    with "4.IH"(1) len have "bound lower (child_score b mx m)"
      by (simp add: child_score_def)
    with True show ?thesis by auto
  next
    case False
    with "4.prems" have "forces_some n lower b mx ms" by (auto split: if_splits)
    with "4.IH"(2,3) False len show ?thesis by (cases "b ! m = EMPTY") auto
  qed
next
  case (5 n lower b mx)
  then show ?case by simp
next
  case (6 n lower b mx m ms)
  note len = \<open>length b = 9\<close>
  show ?case
  proof (cases "b ! m = EMPTY")
    case True
    with "6.prems" have f: "forces n lower (b[m := mark mx]) (\<not> mx)"
      and r: "forces_every n lower b mx ms" by (auto split: if_splits)
    from "6.IH"(1)[OF True] f len have "bound lower (child_score b mx m)"
      by (simp add: child_score_def)
    moreover from "6.IH"(2)[OF True f len r]
    have "\<forall>m \<in> set ms. b ! m = EMPTY \<longrightarrow> bound lower (child_score b mx m)" .
    ultimately show ?thesis by simp
  next
    case False
    with "6.prems" have "forces_every n lower b mx ms" by simp
    from "6.IH"(3)[OF False len this] False show ?thesis by simp
  qed
qed

text \<open>Rules that run the checker on a board written out cell by cell.\<close>

lemma cells_distinct:
  "PLAYER \<noteq> COMPUTER" "COMPUTER \<noteq> PLAYER" "PLAYER \<noteq> EMPTY" "EMPTY \<noteq> PLAYER"
  "COMPUTER \<noteq> EMPTY" "EMPTY \<noteq> COMPUTER"
  by (simp_all add: PLAYER_def COMPUTER_def EMPTY_def)

lemma won_nine:
  "check_win [a, b, c, d, e, f, g, h, i] s = Inr True \<longleftrightarrow>
     a = s \<and> b = s \<and> c = s \<or> d = s \<and> e = s \<and> f = s \<or> g = s \<and> h = s \<and> i = s \<or>
     a = s \<and> d = s \<and> g = s \<or> b = s \<and> e = s \<and> h = s \<or> c = s \<and> f = s \<and> i = s \<or>
     a = s \<and> e = s \<and> i = s \<or> c = s \<and> e = s \<and> g = s"
  by (simp add: check_win_nine)

lemma full_nine:
  "check_draw [a, b, c, d, e, f, g, h, i] \<longleftrightarrow>
     a \<noteq> EMPTY \<and> b \<noteq> EMPTY \<and> c \<noteq> EMPTY \<and> d \<noteq> EMPTY \<and> e \<noteq> EMPTY \<and>
     f \<noteq> EMPTY \<and> g \<noteq> EMPTY \<and> h \<noteq> EMPTY \<and> i \<noteq> EMPTY"
  by (simp add: check_draw_def)

lemma nth_nine:
  "[a, b, c, d, e, f, g, h, i] ! 0 = a" "[a, b, c, d, e, f, g, h, i] ! 1 = b"
  "[a, b, c, d, e, f, g, h, i] ! 2 = c" "[a, b, c, d, e, f, g, h, i] ! 3 = d"
  "[a, b, c, d, e, f, g, h, i] ! 4 = e" "[a, b, c, d, e, f, g, h, i] ! 5 = f"
  "[a, b, c, d, e, f, g, h, i] ! 6 = g" "[a, b, c, d, e, f, g, h, i] ! 7 = h"
  "[a, b, c, d, e, f, g, h, i] ! 8 = i"
  by simp_all

lemma update_nine:
  "[a, b, c, d, e, f, g, h, i][0 := v] = [v, b, c, d, e, f, g, h, i]"
  "[a, b, c, d, e, f, g, h, i][1 := v] = [a, v, c, d, e, f, g, h, i]"
  "[a, b, c, d, e, f, g, h, i][2 := v] = [a, b, v, d, e, f, g, h, i]"
  "[a, b, c, d, e, f, g, h, i][3 := v] = [a, b, c, v, e, f, g, h, i]"
  "[a, b, c, d, e, f, g, h, i][4 := v] = [a, b, c, d, v, f, g, h, i]"
  "[a, b, c, d, e, f, g, h, i][5 := v] = [a, b, c, d, e, v, g, h, i]"
  "[a, b, c, d, e, f, g, h, i][6 := v] = [a, b, c, d, e, f, v, h, i]"
  "[a, b, c, d, e, f, g, h, i][7 := v] = [a, b, c, d, e, f, g, v, i]"
  "[a, b, c, d, e, f, g, h, i][8 := v] = [a, b, c, d, e, f, g, h, v]"
  by (simp_all add: numeral_eq_Suc)

lemma forces_numeral:
  "forces (numeral k) lower b mx = forces (Suc (pred_numeral k)) lower b mx"
  "forces_some (numeral k) lower b mx ms = forces_some (Suc (pred_numeral k)) lower b mx ms"
  "forces_every (numeral k) lower b mx ms = forces_every (Suc (pred_numeral k)) lower b mx ms"
  by (simp_all add: numeral_eq_Suc)

lemmas run_forces = forces.simps(2) forces_some.simps forces_every.simps forces_numeral
  preference_def cells_distinct won_nine full_nine nth_nine update_nine
  if_True if_False simp_thms pred_numeral_simps BitM.simps

text \<open>
  Three runs of the checker: the computer holds the empty board when the human starts; it
  holds the board after its own opening in cell 0; and the human holds the board after any
  opening of the computer.
\<close>

lemma replicate_blank: "replicate 9 EMPTY = blank"
  by (simp add: numeral_eq_Suc)

lemma human_first_holds: "forces 10 True blank False"
  by (simp only: run_forces cong: if_weak_cong)

lemma corner_first_holds:
  "forces 9 True [COMPUTER, EMPTY, EMPTY, EMPTY, EMPTY, EMPTY, EMPTY, EMPTY, EMPTY] False"
  by (simp only: run_forces cong: if_weak_cong)

lemma computer_first_held: "forces_every 9 False blank True preference"
  by (simp only: run_forces cong: if_weak_cong)

lemma score_blank_human: "0 \<le> score_of blank False"
  using forces_sound(1)[OF _ human_first_holds] by (simp add: bound_def)

lemma score_corner: "0 \<le> child_score blank True 0"
  using forces_sound(1)[OF _ corner_first_holds] by (simp add: bound_def child_score_def)

lemma score_any_first:
  "m \<in> set (get_available_moves blank) \<Longrightarrow> child_score blank True m \<le> 0"
  using forces_sound(3)[OF _ computer_first_held]
  by (simp add: bound_def available_preference)

lemma not_terminal_blank: "\<not> terminal blank"
  by (simp add: terminal_def won_nine full_nine cells_distinct)

lemma minimax_blank: "minimax blank True = Inr (blank, Fin 0, Some 0)"
proof -
  have len: "length blank = 9" by simp
  from minimax_first_best[OF len not_terminal_blank, of True] obtain m where
    m: "m \<in> set (get_available_moves blank)" and
    r: "minimax blank True = Inr (blank, Fin (child_score blank True m), Some m)" and
    best: "\<forall>m' \<in> set (get_available_moves blank).
              \<not> better True (child_score blank True m') (child_score blank True m) \<and>
              (child_score blank True m' = child_score blank True m \<longrightarrow> m \<le> m')"
    by blast
  have z: "0 \<in> set (get_available_moves blank)" by (simp add: set_get_available_moves)
  with best have "\<not> child_score blank True m < child_score blank True 0"
    and low: "child_score blank True 0 = child_score blank True m \<longrightarrow> m \<le> 0"
    by (auto simp: better_def)
  with score_corner score_any_first[OF m] have "child_score blank True m = 0"
    and "child_score blank True 0 = 0" using score_any_first[OF z] by auto
  with low have "m = 0" by simp
  with r \<open>child_score blank True m = 0\<close> show ?thesis by simp
qed

text \<open>
  C3. The best score is replaced only by a strictly better one: a later candidate with the
  same score leaves score and move as they are. So on a board of nine cells that is not
  terminal \<open>minimax\<close> returns a candidate that no other candidate beats, and among the
  candidates with that same score the one of lowest index. On the all-Empty board with the
  computer to move it returns score 0 and move 0.
\<close>

theorem minimax_tie_break:
  "update_best is_maximizing (Fin v) later (Fin v, Some earlier) = (Fin v, Some earlier) \<and>
   (length board = 9 \<and> \<not> terminal board \<longrightarrow>
      (\<exists>m \<in> set (get_available_moves board).
         minimax board is_maximizing =
           Inr (board, Fin (child_score board is_maximizing m), Some m) \<and>
         (\<forall>m' \<in> set (get_available_moves board).
            \<not> better is_maximizing (child_score board is_maximizing m')
                                    (child_score board is_maximizing m) \<and>
            (child_score board is_maximizing m' = child_score board is_maximizing m \<longrightarrow>
               m \<le> m')))) \<and>
   minimax (replicate 9 EMPTY) True = Inr (replicate 9 EMPTY, Fin 0, Some 0)"
proof -
  have "update_best is_maximizing (Fin v) later (Fin v, Some earlier) = (Fin v, Some earlier)"
    by (simp add: update_best_def)
  with minimax_first_best[of board is_maximizing] minimax_blank show ?thesis
    by (simp only: replicate_blank) blast
qed

theorem minimax_tie_break_witness:
  "length [PLAYER, PLAYER, COMPUTER, PLAYER, PLAYER, EMPTY, COMPUTER, EMPTY, COMPUTER] = 9 \<and>
   \<not> terminal [PLAYER, PLAYER, COMPUTER, PLAYER, PLAYER, EMPTY, COMPUTER, EMPTY, COMPUTER] \<and>
   get_available_moves [PLAYER, PLAYER, COMPUTER, PLAYER, PLAYER, EMPTY, COMPUTER, EMPTY, COMPUTER]
     = [5, 7] \<and>
   child_score [PLAYER, PLAYER, COMPUTER, PLAYER, PLAYER, EMPTY, COMPUTER, EMPTY, COMPUTER] True 5
     = 1 \<and>
   child_score [PLAYER, PLAYER, COMPUTER, PLAYER, PLAYER, EMPTY, COMPUTER, EMPTY, COMPUTER] True 7
     = 1 \<and>
   minimax [PLAYER, PLAYER, COMPUTER, PLAYER, PLAYER, EMPTY, COMPUTER, EMPTY, COMPUTER] True =
     Inr ([PLAYER, PLAYER, COMPUTER, PLAYER, PLAYER, EMPTY, COMPUTER, EMPTY, COMPUTER],
          Fin 1, Some 5)"
proof -
  let ?b = "[PLAYER, PLAYER, COMPUTER, PLAYER, PLAYER, EMPTY, COMPUTER, EMPTY, COMPUTER]"
  have nt: "\<not> terminal ?b" by (simp add: terminal_def won_nine full_nine cells_distinct)
  have av: "get_available_moves ?b = [5, 7]"
    by (simp add: get_available_moves_def cells_distinct)
  have c5: "child_score ?b True 5 = 1"
    by (simp add: child_score_def update_nine score_of_terminal(1) won_nine)
  have c7: "child_score ?b True 7 = 1"
    by (simp add: child_score_def update_nine score_of_terminal(1) won_nine)
  from minimax_tie_break[where board = ?b and is_maximizing = True] nt av c5 c7
  show ?thesis by auto
qed

section \<open>Properties of the game\<close>

lemma check_win_nine_lines:
  assumes "length b = 9"
  shows "check_win b s = Inr (\<exists>line \<in> set win_lines. \<forall>i \<in> set line. b ! i = s)"
proof -
  have "\<forall>line \<in> set win_lines. \<forall>i \<in> set line. i < length b"
    using assms by (simp add: win_lines_def)
  then show ?thesis unfolding check_win_def by (rule any_line_in_range)
qed

lemma check_win_other:
  assumes len: "length b = 9" and pq: "p \<noteq> q"
    and w: "check_win (b[i := p]) q = Inr True"
  shows "check_win b q = Inr True"
proof -
  from w len obtain line where l: "line \<in> set win_lines"
    and a: "\<forall>k \<in> set line. b[i := p] ! k = q"
    by (auto simp: check_win_nine_lines)
  have "b ! k = q" if "k \<in> set line" for k
  proof -
    from a that have q: "b[i := p] ! k = q" by simp
    from l that len have "k < length b" by (auto simp: win_lines_def)
    with q pq show ?thesis by (cases "k = i") auto
  qed
  with l len show ?thesis by (auto simp: check_win_nine_lines)
qed

lemma check_win_bool: "length b = 9 \<Longrightarrow> check_win b s \<noteq> Inr True \<Longrightarrow> check_win b s = Inr False"
  by (simp add: check_win_nine_lines)

lemma PLAYER_neq_COMPUTER: "PLAYER \<noteq> COMPUTER"
  by (simp add: PLAYER_def COMPUTER_def)

lemma fair_after_move:
  assumes len: "length b = 9" and p: "p = PLAYER \<or> p = COMPUTER"
    and none: "check_win b PLAYER = Inr False" "check_win b COMPUTER = Inr False"
    and am: "after_move (b[i := p]) p = Inr g"
  shows "fair g"
proof -
  let ?b = "b[i := p]"
  have len': "length ?b = 9" using len by simp
  have other: "check_win ?b q = Inr False" if "q \<noteq> p" "q = PLAYER \<or> q = COMPUTER" for q
  proof -
    from that none have "check_win b q \<noteq> Inr True" by auto
    with check_win_other[OF len, of p q i] that have "check_win ?b q \<noteq> Inr True" by auto
    with len' show ?thesis by (rule check_win_bool)
  qed
  from am p other PLAYER_neq_COMPUTER show ?thesis
    using check_win_nine_lines[OF len', of p] len'
    by (auto simp: after_move_def fair_def split: if_splits)
qed

lemma fair_initial: "fair initial"
  by (simp add: fair_def initial_def check_win_nine_lines win_lines_def
        PLAYER_def COMPUTER_def EMPTY_def)

lemma fair_free_step: "free_step g g' \<Longrightarrow> fair g \<Longrightarrow> fair g'"
proof (induction rule: free_step.induct)
  case (any_turn board move current_player board' g)
  from any_turn(2) have "board' = board[move := current_player]"
    by (simp add: make_move_def setitem_Inr)
  with any_turn show ?case
    using fair_after_move[of board current_player move g] by (simp add: fair_def)
qed

lemma fair_game_step: "game_step g g' \<Longrightarrow> fair g \<Longrightarrow> fair g'"
proof (induction rule: game_step.induct)
  case (player_turn current_player board move board' g)
  from player_turn(3) have "board' = board[move := current_player]"
    using player_turn(1) by (simp add: make_move_def setitem_Inr)
  with player_turn show ?case
    using fair_after_move[of board current_player move g] by (simp add: fair_def)
next
  case (computer_turn current_player board board1 move board' g)
  from computer_turn(2) have "board1 = board" by (rule get_computer_move_frame)
  moreover from computer_turn(1,5) have "current_player = COMPUTER" by (simp add: fair_def)
  ultimately have "board' = board[move := current_player]"
    using computer_turn(3) by (simp add: make_move_def setitem_Inr)
  with computer_turn show ?case
    using fair_after_move[of board current_player move g] by (simp add: fair_def)
qed

lemma fair_free_reachable: "free_reachable g \<Longrightarrow> fair g"
  by (induction rule: free_reachable.induct) (auto intro: fair_initial fair_free_step)

lemma fair_reachable: "reachable g \<Longrightarrow> fair g"
  by (induction rule: reachable.induct) (auto intro: fair_initial fair_game_step)

lemma free_reachable_move:
  assumes "free_reachable (Playing b p)" "m < length b" "b ! m = EMPTY"
    and "after_move (b[m := p]) p = Inr g"
  shows "free_reachable g"
proof -
  from assms(2,3) have "getitem b m = Inr EMPTY" by (simp add: getitem_def)
  moreover from assms(2) have "make_move b m p = Inr (b[m := p])"
    by (simp add: make_move_def setitem_def)
  ultimately have "free_step (Playing b p) g" using assms(4) by (rule any_turn)
  with assms(1) show ?thesis by (rule free_reachable.free_step)
qed

lemmas run_turn = after_move_def check_win_def win_lines_def getitem_def check_draw_def
  PLAYER_def COMPUTER_def EMPTY_def

text \<open>
  C9. Start from the all-Empty board and let the two sides mark Empty cells in turn, the
  human first, the round ending as soon as the mover has a line or the board is full; the
  computer's cell may be any Empty cell or the one \<open>get_computer_move\<close> picks. Every
  board that can arise has nine cells and never shows a line of \<open>X\<close> together with a
  line of \<open>O\<close>.
\<close>

theorem never_two_winners:
  assumes "free_reachable g \<or> reachable g"
  shows "length (board_of g) = 9 \<and>
         \<not> (check_win (board_of g) PLAYER = Inr True \<and> check_win (board_of g) COMPUTER = Inr True)"
proof -
  from assms have "fair g" using fair_free_reachable fair_reachable by blast
  then show ?thesis by (cases g) (auto simp: fair_def)
qed

theorem never_two_winners_witness:
  "free_reachable
     (Over [PLAYER, PLAYER, PLAYER, COMPUTER, COMPUTER, EMPTY, EMPTY, EMPTY, EMPTY]
        (Winner PLAYER)) \<and>
   check_win [PLAYER, PLAYER, PLAYER, COMPUTER, COMPUTER, EMPTY, EMPTY, EMPTY, EMPTY] PLAYER
     = Inr True \<and>
   check_win [PLAYER, PLAYER, PLAYER, COMPUTER, COMPUTER, EMPTY, EMPTY, EMPTY, EMPTY] COMPUTER
     \<noteq> Inr True"
proof -
  let ?g0 = "Playing [EMPTY, EMPTY, EMPTY, EMPTY, EMPTY, EMPTY, EMPTY, EMPTY, EMPTY] PLAYER"
  let ?g1 = "Playing [PLAYER, EMPTY, EMPTY, EMPTY, EMPTY, EMPTY, EMPTY, EMPTY, EMPTY] COMPUTER"
  let ?g2 = "Playing [PLAYER, EMPTY, EMPTY, COMPUTER, EMPTY, EMPTY, EMPTY, EMPTY, EMPTY] PLAYER"
  let ?g3 = "Playing [PLAYER, PLAYER, EMPTY, COMPUTER, EMPTY, EMPTY, EMPTY, EMPTY, EMPTY] COMPUTER"
  let ?g4 = "Playing [PLAYER, PLAYER, EMPTY, COMPUTER, COMPUTER, EMPTY, EMPTY, EMPTY, EMPTY] PLAYER"
  let ?g5 = "Over [PLAYER, PLAYER, PLAYER, COMPUTER, COMPUTER, EMPTY, EMPTY, EMPTY, EMPTY]
               (Winner PLAYER)"
  have "initial = ?g0" by (simp add: initial_def numeral_eq_Suc)
  then have "free_reachable ?g0" using free_start by simp
  then have "free_reachable ?g1"
    by (rule free_reachable_move[where m = 0]) (simp_all add: run_turn)
  then have "free_reachable ?g2"
    by (rule free_reachable_move[where m = 3]) (simp_all add: run_turn)
  then have "free_reachable ?g3"
    by (rule free_reachable_move[where m = 1]) (simp_all add: run_turn)
  then have "free_reachable ?g4"
    by (rule free_reachable_move[where m = 4]) (simp_all add: run_turn)
  then have r: "free_reachable ?g5"
    by (rule free_reachable_move[where m = 2]) (simp_all add: run_turn)
  have w: "check_win [PLAYER, PLAYER, PLAYER, COMPUTER, COMPUTER, EMPTY, EMPTY, EMPTY, EMPTY] PLAYER
     = Inr True" by (simp add: run_turn)
  from never_two_winners[of ?g5] r have
    "\<not> (check_win [PLAYER, PLAYER, PLAYER, COMPUTER, COMPUTER, EMPTY, EMPTY, EMPTY, EMPTY]
            PLAYER = Inr True \<and>
          check_win [PLAYER, PLAYER, PLAYER, COMPUTER, COMPUTER, EMPTY, EMPTY, EMPTY, EMPTY]
            COMPUTER = Inr True)"
    by simp
  with r w show ?thesis by blast
qed

lemma check_win_kept:
  assumes "length b = 9" "p \<noteq> q" "check_win b q = Inr False"
  shows "check_win (b[i := p]) q = Inr False"
proof -
  from assms(3) have "check_win b q \<noteq> Inr True" by simp
  with check_win_other[OF assms(1,2), of i] have "check_win (b[i := p]) q \<noteq> Inr True" by blast
  with assms(1) show ?thesis by (simp add: check_win_bool)
qed

lemma score_after_player:
  assumes "length b = 9" "\<not> terminal b" "m \<in> set (get_available_moves b)"
  shows "score_of b False \<le> score_of (b[m := PLAYER]) True"
proof -
  from score_choice[OF assms(1,2), of False] assms(3) obtain m0 where
    "score_of b False = child_score b False m0"
    "\<not> better False (child_score b False m) (child_score b False m0)"
    by blast
  then show ?thesis by (simp add: better_def child_score_def)
qed

lemma computer_reply:
  assumes "length b = 9" "\<not> terminal b"
  shows "\<exists>m \<in> set (get_available_moves b).
           get_computer_move b = Inr (b, m) \<and> score_of (b[m := COMPUTER]) False = score_of b True"
proof -
  from minimax_first_best[OF assms, of True] obtain m where
    m: "m \<in> set (get_available_moves b)" and
    r: "minimax b True = Inr (b, Fin (child_score b True m), Some m)"
    by blast
  from r have "get_computer_move b = Inr (b, m)" by (simp add: get_computer_move_def)
  moreover from r have "score_of b True = child_score b True m" by (simp add: score_of_def)
  ultimately show ?thesis using m by (auto simp: child_score_def)
qed

lemma safe_after_move:
  assumes len: "length b = 9" and p: "p = PLAYER \<or> p = COMPUTER"
    and lost: "check_win b PLAYER = Inr False"
    and other: "p = PLAYER \<Longrightarrow> check_win b COMPUTER = Inr False"
    and sc: "check_win b COMPUTER = Inr False \<Longrightarrow> \<not> check_draw b \<Longrightarrow>
               0 \<le> score_of b (p \<noteq> COMPUTER)"
    and am: "after_move b p = Inr g"
  shows "safe g"
proof -
  from p show ?thesis
  proof
    assume "p = PLAYER"
    with am lost other sc len show ?thesis
      using PLAYER_neq_COMPUTER
      by (auto simp: after_move_def safe_def terminal_def split: if_splits)
  next
    assume c: "p = COMPUTER"
    from check_win_nine_lines[OF len, of COMPUTER]
    consider "check_win b COMPUTER = Inr True" | "check_win b COMPUTER = Inr False" by auto
    then show ?thesis
    proof cases
      case 1
      with am c lost show ?thesis by (auto simp: after_move_def safe_def len)
    next
      case 2
      with am c lost len sc show ?thesis
        using PLAYER_neq_COMPUTER
        by (auto simp: after_move_def safe_def terminal_def split: if_splits)
    qed
  qed
qed

lemma player_may_choose_available:
  "player_may_choose b m \<Longrightarrow> m \<in> set (get_available_moves b)"
  by (auto simp: player_may_choose_def getitem_def set_get_available_moves split: if_splits)

lemma safe_game_step: "game_step g g' \<Longrightarrow> safe g \<Longrightarrow> safe g'"
proof (induction rule: game_step.induct)
  case (player_turn current_player board move board' g)
  from player_turn(5,1) have len: "length board = 9" and nt: "\<not> terminal board"
    and sc: "0 \<le> score_of board False"
    using PLAYER_neq_COMPUTER by (simp_all add: safe_def)
  from nt len have none: "check_win board COMPUTER = Inr False" "check_win board PLAYER = Inr False"
    by (simp_all add: terminal_nine)
  from player_turn(2) have av: "move \<in> set (get_available_moves board)"
    by (rule player_may_choose_available)
  from player_turn(3) have b': "board' = board[move := PLAYER]"
    by (simp add: make_move_def setitem_Inr)
  have len': "length board' = 9" using len b' by simp
  from score_after_player[OF len nt av] sc b' have sc': "0 \<le> score_of board' True" by simp
  have oc: "check_win board' COMPUTER = Inr False"
    unfolding b' using len PLAYER_neq_COMPUTER none(1) by (rule check_win_kept)
  have "check_win board' PLAYER \<noteq> Inr True"
  proof
    assume "check_win board' PLAYER = Inr True"
    with oc score_of_terminal(2)[OF len', of True] have "score_of board' True = - 1" by simp
    with sc' show False by simp
  qed
  with len' have pl: "check_win board' PLAYER = Inr False" by (simp add: check_win_bool)
  from player_turn(4,1) have "after_move board' PLAYER = Inr g" by simp
  with len' pl oc sc' show ?case
    using PLAYER_neq_COMPUTER by (intro safe_after_move[of board' PLAYER g]) simp_all
next
  case (computer_turn current_player board board1 move board' g)
  from computer_turn(5,1) have cp: "current_player = COMPUTER" and len: "length board = 9"
    and nt: "\<not> terminal board" and sc: "0 \<le> score_of board True"
    by (auto simp: safe_def)
  from nt len have none: "check_win board PLAYER = Inr False" by (simp add: terminal_nine)
  from computer_reply[OF len nt] computer_turn(2) have b1: "board1 = board"
    and av: "move \<in> set (get_available_moves board)"
    and v: "score_of (board[move := COMPUTER]) False = score_of board True"
    by auto
  from computer_turn(3) b1 have b': "board' = board[move := COMPUTER]"
    by (simp add: make_move_def setitem_Inr)
  have len': "length board' = 9" using len b' by simp
  have pl: "check_win board' PLAYER = Inr False"
    unfolding b' using len PLAYER_neq_COMPUTER[symmetric] none by (rule check_win_kept)
  from computer_turn(4) cp have "after_move board' COMPUTER = Inr g" by simp
  with len' pl sc v b' show ?case
    using PLAYER_neq_COMPUTER by (intro safe_after_move[of board' COMPUTER g]) simp_all
qed

lemma safe_initial: "safe initial"
  using score_blank_human not_terminal_blank PLAYER_neq_COMPUTER
  by (simp add: safe_def initial_def replicate_blank)

lemma safe_reachable: "reachable g \<Longrightarrow> safe g"
  by (induction rule: reachable.induct) (auto intro: safe_initial safe_game_step)

lemma computer_can_move:
  assumes "safe (Playing b COMPUTER)"
  shows "\<exists>g'. game_step (Playing b COMPUTER) g'"
proof -
  from assms have len: "length b = 9" and nt: "\<not> terminal b" by (simp_all add: safe_def)
  from computer_reply[OF len nt] obtain m where
    m: "m \<in> set (get_available_moves b)" and g: "get_computer_move b = Inr (b, m)" by blast
  from m len have mv: "make_move b m COMPUTER = Inr (b[m := COMPUTER])"
    by (simp add: make_move_def setitem_def set_get_available_moves)
  have "length (b[m := COMPUTER]) = 9" using len by simp
  from check_win_nine_lines[OF this, of COMPUTER]
  have "\<exists>g'. after_move (b[m := COMPUTER]) COMPUTER = Inr g'"
    by (simp add: after_move_def)
  then obtain g' where am: "after_move (b[m := COMPUTER]) COMPUTER = Inr g'" ..
  have "COMPUTER \<noteq> PLAYER" using PLAYER_neq_COMPUTER by simp
  from game_step.computer_turn[OF this g mv am] show ?thesis ..
qed

text \<open>
  C1. A round starts on the all-Empty board with the human to move; the human marks any
  Empty cell, the computer the cell \<open>get_computer_move\<close> returns. In every state such a
  round can reach, \<open>X\<close> has no line; a finished round is a win of the computer or a
  draw; and whenever it is the computer's turn, its move is found and played without error.
\<close>

theorem computer_never_loses:
  assumes "reachable g"
  shows "check_win (board_of g) PLAYER = Inr False \<and>
         (\<forall>b r. g = Over b r \<longrightarrow> r = Winner COMPUTER \<or> r = Draw) \<and>
         (\<forall>b. g = Playing b COMPUTER \<longrightarrow> (\<exists>g'. game_step g g'))"
proof -
  from assms have s: "safe g" by (rule safe_reachable)
  then have "check_win (board_of g) PLAYER = Inr False"
    by (cases g) (auto simp: safe_def terminal_nine)
  moreover from s have "\<forall>b r. g = Over b r \<longrightarrow> r = Winner COMPUTER \<or> r = Draw"
    by (auto simp: safe_def)
  moreover from s have "\<forall>b. g = Playing b COMPUTER \<longrightarrow> (\<exists>g'. game_step g g')"
    using computer_can_move by blast
  ultimately show ?thesis by blast
qed

theorem computer_never_loses_witness:
  "reachable (Playing [EMPTY, EMPTY, EMPTY, EMPTY, PLAYER, EMPTY, EMPTY, EMPTY, EMPTY] COMPUTER) \<and>
   check_win [EMPTY, EMPTY, EMPTY, EMPTY, PLAYER, EMPTY, EMPTY, EMPTY, EMPTY] PLAYER = Inr False \<and>
   (\<exists>g'. game_step
            (Playing [EMPTY, EMPTY, EMPTY, EMPTY, PLAYER, EMPTY, EMPTY, EMPTY, EMPTY] COMPUTER) g')"
proof -
  let ?b = "[EMPTY, EMPTY, EMPTY, EMPTY, PLAYER, EMPTY, EMPTY, EMPTY, EMPTY]"
  have "\<exists>row \<in> {1, 2, 3}. \<exists>col \<in> {1, 2, 3}. (4::nat) = (row - 1) * 3 + (col - 1)"
    by simp
  then have c: "player_may_choose blank 4"
    by (simp add: player_may_choose_def getitem_def)
  have m: "make_move blank 4 PLAYER = Inr ?b"
    by (simp add: make_move_def setitem_def)
  have a: "after_move ?b PLAYER = Inr (Playing ?b COMPUTER)"
    by (simp add: run_turn)
  from game_step.player_turn[OF refl c m a] have "game_step initial (Playing ?b COMPUTER)"
    by (simp add: initial_def replicate_blank)
  with reachable.start have r: "reachable (Playing ?b COMPUTER)" by (rule reachable.step)
  from computer_never_loses[OF r] r show ?thesis by simp
qed

end
